theory Spec2Isabelle
  imports Complex_Main "HOL-Library.AList"
begin

section \<open>JavaScript strings\<close>

text \<open>
  A JavaScript string is modelled as a \<open>string\<close>: a list of code units. Only code units
  below 256 are represented.
\<close>

definition NL :: char where
  "NL = CHR 0x0A"

definition js_whitespace :: "char \<Rightarrow> bool" where
  \<comment> \<open>the characters \<open>String.prototype.trim\<close> strips and \<open>\s\<close> matches, below code 256\<close>
  "js_whitespace c =
     (let n = (of_char c :: nat) in (9 \<le> n \<and> n \<le> 13) \<or> n = 32 \<or> n = 160)"

definition trim :: "string \<Rightarrow> string" where
  "trim s = rev (dropWhile js_whitespace (rev (dropWhile js_whitespace s)))"

fun split_nl :: "string \<Rightarrow> string list" where
  \<comment> \<open>\<open>s.split('\n')\<close>: the empty string yields one empty piece\<close>
  "split_nl [] = [ [] ]"
| "split_nl (c # cs) =
     (if c = NL then [] # split_nl cs
      else (case split_nl cs of [] \<Rightarrow> [ [c] ] | l # ls \<Rightarrow> (c # l) # ls))"

fun join :: "string \<Rightarrow> string list \<Rightarrow> string" where
  \<comment> \<open>\<open>xs.join(sep)\<close>\<close>
  "join sep [] = []"
| "join sep [x] = x"
| "join sep (x # y # ys) = x @ sep @ join sep (y # ys)"

definition truthy :: "string \<Rightarrow> bool" where
  \<comment> \<open>a string is falsy exactly when it is empty\<close>
  "truthy s = (s \<noteq> [])"

section \<open>JSON values, \<open>JSON.stringify\<close> and \<open>JSON.parse\<close>\<close>

text \<open>
  JSON values with integer numbers. An object is an association list in property order;
  a property whose value is \<open>undefined\<close> is simply absent, which is how
  \<open>JSON.stringify\<close> writes it.
\<close>

datatype json =
    JNull
  | JBool bool
  | JNum int
  | JStr string
  | JArr "json list"
  | JObj "(string \<times> json) list"

definition hex_digit :: "nat \<Rightarrow> char" where
  "hex_digit n = ''0123456789abcdef'' ! (n mod 16)"

definition escape_char :: "char \<Rightarrow> string" where
  "escape_char c =
     (if c = CHR 0x22 then [CHR 0x5C, CHR 0x22]
      else if c = CHR 0x5C then [CHR 0x5C, CHR 0x5C]
      else if c = CHR 0x08 then [CHR 0x5C, CHR ''b'']
      else if c = CHR 0x0C then [CHR 0x5C, CHR ''f'']
      else if c = CHR 0x0A then [CHR 0x5C, CHR ''n'']
      else if c = CHR 0x0D then [CHR 0x5C, CHR ''r'']
      else if c = CHR 0x09 then [CHR 0x5C, CHR ''t'']
      else if (of_char c :: nat) < 32 then
        [CHR 0x5C, CHR ''u'', CHR ''0'', CHR ''0'',
         hex_digit ((of_char c :: nat) div 16), hex_digit (of_char c :: nat)]
      else [c])"

definition quote :: "string \<Rightarrow> string" where
  "quote s = CHR 0x22 # concat (map escape_char s) @ [CHR 0x22]"

fun digits :: "nat \<Rightarrow> string" where
  "digits n =
     (if n < 10 then [char_of (48 + n)]
      else digits (n div 10) @ [char_of (48 + n mod 10)])"

declare digits.simps [simp del]

fun JSON_stringify :: "json \<Rightarrow> string" where
  "JSON_stringify JNull = ''null''"
| "JSON_stringify (JBool b) = (if b then ''true'' else ''false'')"
| "JSON_stringify (JNum n) = (if n < 0 then CHR ''-'' # digits (nat (- n)) else digits (nat n))"
| "JSON_stringify (JStr s) = quote s"
| "JSON_stringify (JArr vs) = ''['' @ join '','' (map JSON_stringify vs) @ '']''"
| "JSON_stringify (JObj kvs) =
     ''{'' @ join '','' (map (\<lambda>kv. quote (fst kv) @ '':'' @ JSON_stringify (snd kv)) kvs) @ ''}''"

text \<open>
  \<open>JSON.parse\<close> as a recursive-descent parser. The fuel is used up by one for each nested
  value and for each further element or member; \<open>JSON_parse\<close> starts with more fuel than
  the text has characters. Whitespace is skipped where JSON allows it. A repeated key of
  an object keeps its first position and takes its last value. A number with a fraction
  or an exponent and an escape \<open>\uXXXX\<close> above \<open>00FF\<close> have no value in this model and
  are rejected.
\<close>

definition json_ws :: "char \<Rightarrow> bool" where
  "json_ws c = (c = CHR 0x20 \<or> c = CHR 0x09 \<or> c = CHR 0x0A \<or> c = CHR 0x0D)"

definition is_digit :: "char \<Rightarrow> bool" where
  "is_digit c = (48 \<le> (of_char c :: nat) \<and> (of_char c :: nat) \<le> 57)"

definition hex_value :: "char \<Rightarrow> nat option" where
  "hex_value c =
     (let n = (of_char c :: nat) in
      if 48 \<le> n \<and> n \<le> 57 then Some (n - 48)
      else if 97 \<le> n \<and> n \<le> 102 then Some (n - 87)
      else if 65 \<le> n \<and> n \<le> 70 then Some (n - 55)
      else None)"

definition unescape :: "char \<Rightarrow> char option" where
  "unescape e =
     (if e = CHR 0x22 then Some (CHR 0x22)
      else if e = CHR 0x5C then Some (CHR 0x5C)
      else if e = CHR ''/'' then Some (CHR ''/'')
      else if e = CHR ''b'' then Some (CHR 0x08)
      else if e = CHR ''f'' then Some (CHR 0x0C)
      else if e = CHR ''n'' then Some (CHR 0x0A)
      else if e = CHR ''r'' then Some (CHR 0x0D)
      else if e = CHR ''t'' then Some (CHR 0x09)
      else None)"

definition prepend :: "char \<Rightarrow> (string \<times> string) option \<Rightarrow> (string \<times> string) option" where
  "prepend c r = (case r of None \<Rightarrow> None | Some (s, rest) \<Rightarrow> Some (c # s, rest))"

fun parse_string_body :: "string \<Rightarrow> (string \<times> string) option" where
  \<comment> \<open>the characters of a string literal after its opening quote, and what follows it\<close>
  "parse_string_body [] = None"
| "parse_string_body (c # cs) =
     (if c = CHR 0x22 then Some ([], cs)
      else if c = CHR 0x5C then
        (case cs of
           [] \<Rightarrow> None
         | e # es \<Rightarrow>
             if e = CHR ''u'' then
               (case es of
                  h1 # h2 # h3 # h4 # r \<Rightarrow>
                    (case (hex_value h1, hex_value h2, hex_value h3, hex_value h4) of
                       (Some a, Some b, Some c', Some d) \<Rightarrow>
                         (if a = 0 \<and> b = 0 then prepend (char_of (16 * c' + d)) (parse_string_body r)
                          else None)
                     | _ \<Rightarrow> None)
                | _ \<Rightarrow> None)
             else (case unescape e of
                     None \<Rightarrow> None
                   | Some ch \<Rightarrow> prepend ch (parse_string_body es)))
      else if (of_char c :: nat) < 32 then None
      else prepend c (parse_string_body cs))"

definition digits_value :: "string \<Rightarrow> nat" where
  "digits_value ds = foldl (\<lambda>acc c. 10 * acc + ((of_char c :: nat) - 48)) 0 ds"

definition parse_unsigned :: "string \<Rightarrow> (nat \<times> string) option" where
  "parse_unsigned s =
     (let ds = takeWhile is_digit s; rest = dropWhile is_digit s in
      if ds = [] then None
      else if 1 < length ds \<and> hd ds = CHR ''0'' then None
      else if rest \<noteq> [] \<and> (hd rest = CHR ''.'' \<or> hd rest = CHR ''e'' \<or> hd rest = CHR ''E'') then None
      else Some (digits_value ds, rest))"

definition parse_number :: "string \<Rightarrow> (json \<times> string) option" where
  "parse_number s =
     (case s of
        [] \<Rightarrow> None
      | c # cs \<Rightarrow>
          if c = CHR ''-'' then
            (case parse_unsigned cs of None \<Rightarrow> None | Some (n, rest) \<Rightarrow> Some (JNum (- int n), rest))
          else
            (case parse_unsigned s of None \<Rightarrow> None | Some (n, rest) \<Rightarrow> Some (JNum (int n), rest)))"

definition parse_literal :: "string \<Rightarrow> (json \<times> string) option" where
  "parse_literal s =
     (if take 4 s = ''true'' then Some (JBool True, drop 4 s)
      else if take 5 s = ''false'' then Some (JBool False, drop 5 s)
      else if take 4 s = ''null'' then Some (JNull, drop 4 s)
      else None)"

definition skip_ws :: "string \<Rightarrow> string" where
  "skip_ws s = dropWhile json_ws s"

fun parse_value :: "nat \<Rightarrow> string \<Rightarrow> (json \<times> string) option"
and parse_elements :: "nat \<Rightarrow> string \<Rightarrow> (json list \<times> string) option"
and parse_members :: "nat \<Rightarrow> string \<Rightarrow> ((string \<times> json) list \<times> string) option"
where
  "parse_value 0 s = None"
| "parse_value (Suc n) s =
     (case skip_ws s of
        [] \<Rightarrow> None
      | c # cs \<Rightarrow>
          if c = CHR ''{'' then
            (case skip_ws cs of
               [] \<Rightarrow> None
             | d # ds \<Rightarrow>
                 if d = CHR ''}'' then Some (JObj [], ds)
                 else (case parse_members n (d # ds) of
                         None \<Rightarrow> None
                       | Some (ms, rest) \<Rightarrow>
                           Some (JObj (foldl (\<lambda>acc kv. AList.update (fst kv) (snd kv) acc) [] ms), rest)))
          else if c = CHR ''['' then
            (case skip_ws cs of
               [] \<Rightarrow> None
             | d # ds \<Rightarrow>
                 if d = CHR '']'' then Some (JArr [], ds)
                 else (case parse_elements n (d # ds) of
                         None \<Rightarrow> None
                       | Some (vs, rest) \<Rightarrow> Some (JArr vs, rest)))
          else if c = CHR 0x22 then
            (case parse_string_body cs of
               None \<Rightarrow> None
             | Some (str, rest) \<Rightarrow> Some (JStr str, rest))
          else if c = CHR ''-'' \<or> is_digit c then parse_number (c # cs)
          else parse_literal (c # cs))"
| "parse_elements 0 s = None"
| "parse_elements (Suc n) s =
     (case parse_value n s of
        None \<Rightarrow> None
      | Some (v, r) \<Rightarrow>
          (case skip_ws r of
             [] \<Rightarrow> None
           | c # cs \<Rightarrow>
               if c = CHR '','' then
                 (case parse_elements n cs of
                    None \<Rightarrow> None
                  | Some (vs, rest) \<Rightarrow> Some (v # vs, rest))
               else if c = CHR '']'' then Some ([v], cs)
               else None))"
| "parse_members 0 s = None"
| "parse_members (Suc n) s =
     (case skip_ws s of
        [] \<Rightarrow> None
      | q # qs \<Rightarrow>
          if q \<noteq> CHR 0x22 then None
          else
            (case parse_string_body qs of
               None \<Rightarrow> None
             | Some (k, r0) \<Rightarrow>
                 (case skip_ws r0 of
                    [] \<Rightarrow> None
                  | colon # r1 \<Rightarrow>
                      if colon \<noteq> CHR '':'' then None
                      else
                        (case parse_value n r1 of
                           None \<Rightarrow> None
                         | Some (v, r) \<Rightarrow>
                             (case skip_ws r of
                                [] \<Rightarrow> None
                              | c # cs \<Rightarrow>
                                  if c = CHR '','' then
                                    (case parse_members n cs of
                                       None \<Rightarrow> None
                                     | Some (ms, rest) \<Rightarrow> Some ((k, v) # ms, rest))
                                  else if c = CHR ''}'' then Some ([(k, v)], cs)
                                  else None)))))"

declare parse_value.simps [simp del] parse_elements.simps [simp del] parse_members.simps [simp del]

definition JSON_parse :: "string \<Rightarrow> json option" where
  \<comment> \<open>\<open>None\<close> stands for the \<open>SyntaxError\<close> that \<open>JSON.parse\<close> throws\<close>
  "JSON_parse s =
     (case parse_value (Suc (length s)) s of
        None \<Rightarrow> None
      | Some (v, rest) \<Rightarrow> if skip_ws rest = [] then Some v else None)"


section \<open>The bookmark log: \<open>GitHubAdapter\<close>\<close>

text \<open>
  A thrown JavaScript value: the error's \<open>name\<close>, its numeric \<open>status\<close> when it has one
  (errors of the GitHub client carry the HTTP status), and its \<open>message\<close>.
\<close>

datatype js_error = JsError (err_name: string) (err_status: "nat option") (err_message: string)

record bookmark =
  bm_id :: string
  bm_url :: string
  bm_title :: "string option"
  bm_description :: "string option"
  bm_image :: "string option"
  bm_tags :: "string list"
  bm_source :: string
  bm_timestamp :: string
  bm_chat_id :: int

definition opt_field :: "string \<Rightarrow> string option \<Rightarrow> (string \<times> json) list" where
  \<comment> \<open>a property whose value is \<open>undefined\<close> is not written\<close>
  "opt_field k v = (case v of None \<Rightarrow> [] | Some s \<Rightarrow> [(k, JStr s)])"

definition bookmark_json :: "bookmark \<Rightarrow> json" where
  \<comment> \<open>the object literal of \<open>handleUpdate\<close>, in its property order\<close>
  "bookmark_json b =
     JObj ([(''id'', JStr (bm_id b)), (''url'', JStr (bm_url b))]
           @ opt_field ''title'' (bm_title b)
           @ opt_field ''description'' (bm_description b)
           @ opt_field ''image'' (bm_image b)
           @ [(''tags'', JArr (map JStr (bm_tags b))),
              (''source'', JStr (bm_source b)),
              (''timestamp'', JStr (bm_timestamp b)),
              (''chat_id'', JNum (bm_chat_id b))])"

record retry_data =
  rd_bookmark :: bookmark
  attempts :: int
  lastError :: string
  createdAt :: string
  lastAttempt :: "string option"

text \<open>
  A value of the retry queue is the JSON text of a retry entry, represented by the entry
  itself, or text that \<open>JSON.parse\<close> rejects.
\<close>

datatype kv_value = RetryJson retry_data | Garbage

datatype reply =
    Welcome
  | UnknownCommand
  | SavedReply string
  | QueuedReply string

datatype log_line =
    ConflictDetected nat
  | RetrySucceeded string
  | MaxRetriesExceeded string string
  | RetryFailed string int
  | ErrorProcessing string js_error

text \<open>
  What \<open>cheerio\<close> finds in a page: the value of each selector that \<open>fetchMetadata\<close>
  reads (\<open>attr\<close> gives \<open>undefined\<close> when there is none, \<open>text\<close> the empty string).
\<close>

record document =
  og_title :: "string option"
  twitter_title :: "string option"
  title_text :: string
  og_description :: "string option"
  twitter_description :: "string option"
  meta_description :: "string option"
  og_image :: "string option"
  twitter_image :: "string option"

record response =
  resp_ok :: bool
  resp_url :: string
  resp_text :: "js_error + document"

text \<open>
  Every external call and its answer, in the order the calls are made: the read and the
  conditional write of the log file (content, expected revision, commit message), the
  delay before a retry, a console line, the fetch of a page, a Telegram message, and the
  calls of the retry queue. The transport encodings (base64, UTF-8) are left out: the
  content is the decoded text.
\<close>

datatype event =
    GetContent "js_error + string \<times> string"
  | CreateOrUpdate string "string option" string "js_error option"
  | Backoff rat
  | Console log_line
  | Fetch string "js_error + response"
  | SendMessage int reply "js_error option"
  | KvList string "js_error + string list"
  | KvGet string "js_error + kv_value option"
  | KvPut string kv_value "js_error option"
  | KvDelete string "js_error option"

text \<open>
  The environment answers each call, and may look at everything that has happened so
  far. \<open>gh_getContent\<close> gives the content and the revision of the log file or throws;
  \<open>gh_createOrUpdate\<close> accepts a write or throws; \<open>url_protocol\<close> is the protocol of
  \<open>new URL(url)\<close>, or \<open>None\<close> where the constructor throws; \<open>net_fetch\<close> gives a response
  or rejects (a network error, or the abort of the timer after \<open>TIMEOUT_MS\<close>);
  \<open>telegram_fault\<close> and \<open>kv_fault\<close> are the error a call to Telegram or to the retry queue
  throws, \<open>None\<close> when the call goes through.
\<close>

record env =
  gh_getContent :: "event list \<Rightarrow> js_error + string \<times> string"
  gh_createOrUpdate :: "event list \<Rightarrow> string \<Rightarrow> string option \<Rightarrow> string \<Rightarrow> js_error option"
  math_random :: "event list \<Rightarrow> rat"
  url_protocol :: "string \<Rightarrow> string option"
  net_fetch :: "event list \<Rightarrow> string \<Rightarrow> js_error + response"
  telegram_fault :: "event list \<Rightarrow> int \<Rightarrow> reply \<Rightarrow> js_error option"
  kv_fault :: "event list \<Rightarrow> string \<Rightarrow> js_error option"
  randomUUID :: "event list \<Rightarrow> string"
  now :: "event list \<Rightarrow> string"

text \<open>
  The state outside an invocation: the calls made so far and the content of the retry
  queue.
\<close>

record world =
  history :: "event list"
  kv :: "(string \<times> kv_value) list"

definition emit :: "event \<Rightarrow> world \<Rightarrow> world" where
  "emit e w = w\<lparr>history := history w @ [e]\<rparr>"

record bookmark_file =
  bookmarks :: "json list"
  sha :: "string option"

fun parse_all :: "string list \<Rightarrow> json list option" where
  \<comment> \<open>\<open>lines.map(line => JSON.parse(line))\<close>: the first line that does not parse throws\<close>
  "parse_all [] = Some []"
| "parse_all (l # ls) =
     (case JSON_parse l of
        None \<Rightarrow> None
      | Some v \<Rightarrow> (case parse_all ls of None \<Rightarrow> None | Some vs \<Rightarrow> Some (v # vs)))"

definition decode_content :: "string \<Rightarrow> json list option" where
  "decode_content content =
     parse_all (filter (\<lambda>line. truthy (trim line)) (split_nl (trim content)))"

definition encode_content :: "json list \<Rightarrow> string" where
  "encode_content bs = join [NL] (map JSON_stringify bs) @ [NL]"

definition syntax_error :: js_error where
  "syntax_error = JsError ''SyntaxError'' None ''JSON.parse''"

definition decode_response :: "js_error + string \<times> string \<Rightarrow> js_error + bookmark_file" where
  \<comment> \<open>the rest of the \<open>try\<close> block once the read has answered; the content arrives decoded\<close>
  "decode_response r =
     (case r of
        Inl error \<Rightarrow> Inl error
      | Inr (content, sha_now) \<Rightarrow>
          (case decode_content content of
             None \<Rightarrow> Inl syntax_error
           | Some bs \<Rightarrow> Inr \<lparr>bookmarks = bs, sha = Some sha_now\<rparr>))"

definition catch_404 :: "js_error + bookmark_file \<Rightarrow> js_error + bookmark_file" where
  \<comment> \<open>the \<open>catch\<close> block of \<open>getBookmarkFile\<close>\<close>
  "catch_404 r =
     (case r of
        Inr file \<Rightarrow> Inr file
      | Inl error \<Rightarrow>
          if err_status error = Some 404 then Inr \<lparr>bookmarks = [], sha = None\<rparr> else Inl error)"

definition getBookmarkFile :: "env \<Rightarrow> world \<Rightarrow> (js_error + bookmark_file) \<times> world" where
  "getBookmarkFile env w =
     (let r = gh_getContent env (history w)
      in (catch_404 (decode_response r), emit (GetContent r) w))"

definition maxRetries :: nat where
  "maxRetries = 3"

definition title_or :: "string option \<Rightarrow> string \<Rightarrow> string" where
  \<comment> \<open>\<open>title || other\<close>\<close>
  "title_or t other = (case t of None \<Rightarrow> other | Some s \<Rightarrow> if truthy s then s else other)"

definition sha_or_undefined :: "string option \<Rightarrow> string option" where
  \<comment> \<open>\<open>sha || undefined\<close>\<close>
  "sha_or_undefined s = (case s of None \<Rightarrow> None | Some x \<Rightarrow> if truthy x then Some x else None)"

definition saveBookmark_try :: "env \<Rightarrow> bookmark \<Rightarrow> world \<Rightarrow> (js_error + unit) \<times> world" where
  \<comment> \<open>the body of the \<open>try\<close> block: one read and one conditional write\<close>
  "saveBookmark_try env bookmark w =
     (case getBookmarkFile env w of
        (Inl error, w1) \<Rightarrow> (Inl error, w1)
      | (Inr file, w1) \<Rightarrow>
          (let newContent = encode_content (bookmarks file @ [bookmark_json bookmark]);
               msg = ''Add: '' @ title_or (bm_title bookmark) ''Untitled'';
               expected = sha_or_undefined (sha file);
               r = gh_createOrUpdate env (history w1) newContent expected msg;
               w2 = emit (CreateOrUpdate newContent expected msg r) w1
           in case r of None \<Rightarrow> (Inr (), w2) | Some error \<Rightarrow> (Inl error, w2)))"

definition backoff :: "env \<Rightarrow> world \<Rightarrow> world" where
  \<comment> \<open>\<open>setTimeout(r, Math.random() * 500 + 200)\<close>, the delay in milliseconds\<close>
  "backoff env w = emit (Backoff (math_random env (history w) * 500 + 200)) w"

definition exhausted :: js_error where
  "exhausted = JsError ''Error'' None ''Failed to save bookmark after multiple retries due to conflicts.''"

function saveBookmark_loop :: "env \<Rightarrow> bookmark \<Rightarrow> nat \<Rightarrow> world \<Rightarrow> (js_error + unit) \<times> world" where
  "saveBookmark_loop env bookmark attempt w =
     (if attempt < maxRetries then
        (case saveBookmark_try env bookmark w of
           (Inr u, w1) \<Rightarrow> (Inr u, w1)
         | (Inl error, w1) \<Rightarrow>
             if err_status error = Some 409 then
               saveBookmark_loop env bookmark (attempt + 1)
                 (backoff env (emit (Console (ConflictDetected (attempt + 1))) w1))
             else (Inl error, w1))
      else (Inl exhausted, w))"
  by pat_completeness auto
termination
  by (relation "measure (\<lambda>(env, bookmark, attempt, w). maxRetries - attempt)") auto

declare saveBookmark_loop.simps [simp del]

definition saveBookmark :: "env \<Rightarrow> bookmark \<Rightarrow> world \<Rightarrow> (js_error + unit) \<times> world" where
  "saveBookmark env bookmark w = saveBookmark_loop env bookmark 0 w"


section \<open>The metadata resolver: \<open>fetchMetadata\<close>\<close>

record metadata =
  md_title :: "string option"
  md_description :: "string option"
  md_image :: "string option"
  md_url :: string
  md_partial :: bool

definition js_or :: "string option \<Rightarrow> string option \<Rightarrow> string option" where
  \<comment> \<open>\<open>a || b\<close> on values that are a string or \<open>undefined\<close>\<close>
  "js_or a b = (case a of None \<Rightarrow> b | Some s \<Rightarrow> if truthy s then Some s else b)"

definition str_or :: "string \<Rightarrow> string \<Rightarrow> string" where
  \<comment> \<open>\<open>a || b\<close> on strings\<close>
  "str_or a b = (if truthy a then a else b)"

definition invalid_url :: "string \<Rightarrow> js_error" where
  "invalid_url url = JsError ''InvalidUrlError'' None (''Invalid URL: '' @ url)"

definition valid_url :: "env \<Rightarrow> string \<Rightarrow> bool" where
  \<comment> \<open>\<open>new URL(url)\<close> does not throw and its protocol is \<open>http:\<close> or \<open>https:\<close>\<close>
  "valid_url env url =
     (case url_protocol env url of
        None \<Rightarrow> False
      | Some p \<Rightarrow> p \<in> set [''http:'', ''https:''])"

definition extract_metadata :: "document \<Rightarrow> string \<Rightarrow> metadata" where
  "extract_metadata doc finalUrl =
     (let title = js_or (js_or (js_or (og_title doc) (twitter_title doc)) (Some (title_text doc))) None;
          description =
            js_or (js_or (js_or (og_description doc) (twitter_description doc)) (meta_description doc)) None;
          image = js_or (js_or (og_image doc) (twitter_image doc)) None
      in \<lparr>md_title = js_or title None,
          md_description = js_or description None,
          md_image = js_or image None,
          md_url = finalUrl,
          md_partial = False\<rparr>)"

definition partial_result :: "string \<Rightarrow> metadata" where
  \<comment> \<open>\<open>{ url, partial: true }\<close>\<close>
  "partial_result u =
     \<lparr>md_title = None, md_description = None, md_image = None, md_url = u, md_partial = True\<rparr>"

definition fetchMetadata :: "env \<Rightarrow> string \<Rightarrow> world \<Rightarrow> (js_error + metadata) \<times> world" where
  "fetchMetadata env url w =
     (if \<not> valid_url env url then (Inl (invalid_url url), w)
      else
        (let r = net_fetch env (history w) url; w1 = emit (Fetch url r) w in
         case r of
           Inl error \<Rightarrow> (Inr (partial_result url), w1)
         | Inr resp \<Rightarrow>
             if \<not> resp_ok resp then (Inr (partial_result (str_or (resp_url resp) url)), w1)
             else
               (case resp_text resp of
                  Inl error \<Rightarrow> (Inr (partial_result url), w1)
                | Inr doc \<Rightarrow> (Inr (extract_metadata doc (str_or (resp_url resp) url)), w1))))"

section \<open>Ingestion: \<open>extractUrl\<close> and \<open>handleUpdate\<close>\<close>

definition to_lower :: "char \<Rightarrow> char" where
  "to_lower c =
     (let n = (of_char c :: nat) in if 65 \<le> n \<and> n \<le> 90 then char_of (n + 32) else c)"

definition url_char :: "char \<Rightarrow> bool" where
  \<comment> \<open>the class \<open>[^\s<>"{}|\\^`\[\]]\<close>\<close>
  "url_char c =
     (\<not> js_whitespace c \<and>
      c \<notin> set [CHR ''<'', CHR ''>'', CHR 0x22, CHR ''{'', CHR ''}'', CHR ''|'', CHR 0x5C,
                 CHR ''^'', CHR 0x60, CHR ''['', CHR '']''])"

fun match_ci :: "string \<Rightarrow> string \<Rightarrow> string option" where
  \<comment> \<open>match a literal at the start of the text, ignoring case; what is left of the text\<close>
  "match_ci [] s = Some s"
| "match_ci (p # ps) [] = None"
| "match_ci (p # ps) (c # cs) = (if to_lower c = to_lower p then match_ci ps cs else None)"

definition match_tail :: "string \<Rightarrow> nat option" where
  \<comment> \<open>\<open>:\/\/[^\s<>"{}|\\^`\[\]]+\<close> at the start of the text: the length of the match\<close>
  "match_tail s =
     (case match_ci ''://'' s of
        None \<Rightarrow> None
      | Some r \<Rightarrow>
          (let body = takeWhile url_char r in
           if body = [] then None else Some (3 + length body)))"

definition match_here :: "string \<Rightarrow> string option" where
  \<comment> \<open>\<open>URL_REGEX\<close> at the start of the text: the optional \<open>s\<close> is tried first\<close>
  "match_here s =
     (case match_ci ''http'' s of
        None \<Rightarrow> None
      | Some r \<Rightarrow>
          (let with_s =
                 (case r of
                    [] \<Rightarrow> None
                  | c # cs \<Rightarrow>
                      if to_lower c = CHR ''s'' then
                        (case match_tail cs of None \<Rightarrow> None | Some n \<Rightarrow> Some (5 + n))
                      else None)
           in case with_s of
                Some n \<Rightarrow> Some (take n s)
              | None \<Rightarrow>
                  (case match_tail r of None \<Rightarrow> None | Some n \<Rightarrow> Some (take (4 + n) s))))"

fun first_match :: "string \<Rightarrow> string option" where
  \<comment> \<open>\<open>text.match(URL_REGEX)\<close>: the match at the leftmost position that has one\<close>
  "first_match [] = match_here []"
| "first_match (c # cs) =
     (case match_here (c # cs) of
        Some m \<Rightarrow> Some m
      | None \<Rightarrow> first_match cs)"

definition extractUrl :: "string option \<Rightarrow> string option" where
  "extractUrl text =
     (case text of
        None \<Rightarrow> None
      | Some t \<Rightarrow> if \<not> truthy t then None else first_match t)"

record message =
  msg_chat_id :: int
  msg_text :: "string option"
  msg_caption :: "string option"

definition sendMessage :: "env \<Rightarrow> int \<Rightarrow> reply \<Rightarrow> world \<Rightarrow> (js_error + unit) \<times> world" where
  "sendMessage env chatId r w =
     (let f = telegram_fault env (history w) chatId r; w1 = emit (SendMessage chatId r f) w in
      case f of None \<Rightarrow> (Inr (), w1) | Some error \<Rightarrow> (Inl error, w1))"

definition kv_put :: "env \<Rightarrow> string \<Rightarrow> kv_value \<Rightarrow> world \<Rightarrow> (js_error + unit) \<times> world" where
  "kv_put env key v w =
     (let f = kv_fault env (history w) key; w1 = emit (KvPut key v f) w in
      case f of
        None \<Rightarrow> (Inr (), w1\<lparr>kv := AList.update key v (kv w1)\<rparr>)
      | Some error \<Rightarrow> (Inl error, w1))"




definition make_bookmark :: "env \<Rightarrow> int \<Rightarrow> string \<Rightarrow> metadata \<Rightarrow> world \<Rightarrow> bookmark" where
  "make_bookmark env chatId url m w =
     \<lparr>bm_id = randomUUID env (history w),
      bm_url = str_or (md_url m) url,
      bm_title = js_or (md_title m) None,
      bm_description = js_or (md_description m) None,
      bm_image = js_or (md_image m) None,
      bm_tags = [],
      bm_source = ''telegram'',
      bm_timestamp = now env (history w),
      bm_chat_id = chatId\<rparr>"

definition queue_for_retry :: "env \<Rightarrow> int \<Rightarrow> bookmark \<Rightarrow> js_error \<Rightarrow> world \<Rightarrow> (js_error + unit) \<times> world" where
  \<comment> \<open>the \<open>catch\<close> block of \<open>handleUpdate\<close>\<close>
  "queue_for_retry env chatId b error w =
     (let retryKey = ''retry:'' @ bm_id b;
          retryData = \<lparr>rd_bookmark = b, attempts = 1, lastError = err_message error,
                       createdAt = now env (history w), lastAttempt = None\<rparr>
      in case kv_put env retryKey (RetryJson retryData) w of
           (Inl e, w1) \<Rightarrow> (Inl e, w1)
         | (Inr u, w1) \<Rightarrow> sendMessage env chatId (QueuedReply (title_or (bm_title b) (bm_url b))) w1)"

definition save_or_queue :: "env \<Rightarrow> int \<Rightarrow> bookmark \<Rightarrow> world \<Rightarrow> (js_error + unit) \<times> world" where
  \<comment> \<open>the last \<open>try\<close>/\<open>catch\<close> of \<open>handleUpdate\<close>: save and confirm, else queue\<close>
  "save_or_queue env chatId b w =
     (case saveBookmark env b w of
        (Inl error, w1) \<Rightarrow> queue_for_retry env chatId b error w1
      | (Inr u, w1) \<Rightarrow>
          (case sendMessage env chatId (SavedReply (title_or (bm_title b) (bm_url b))) w1 of
             (Inl error, w2) \<Rightarrow> queue_for_retry env chatId b error w2
           | (Inr u', w2) \<Rightarrow> (Inr (), w2)))"

definition message_text :: "message \<Rightarrow> string" where
  \<comment> \<open>\<open>message.text || message.caption || ''\<close>\<close>
  "message_text msg =
     (case js_or (js_or (msg_text msg) (msg_caption msg)) (Some []) of
        None \<Rightarrow> []
      | Some t \<Rightarrow> t)"

definition handleUpdate :: "env \<Rightarrow> message option \<Rightarrow> world \<Rightarrow> (js_error + unit) \<times> world" where
  "handleUpdate env update w =
     (case update of
        None \<Rightarrow> (Inr (), w)
      | Some msg \<Rightarrow>
          (let chatId = msg_chat_id msg; txt = message_text msg
           in if take 1 txt = ''/'' then
                (let command = map to_lower (takeWhile (\<lambda>c. c \<noteq> CHR '' '') txt) in
                 if command = ''/start'' then sendMessage env chatId Welcome w
                 else sendMessage env chatId UnknownCommand w)
              else
                (case extractUrl (Some txt) of
                   None \<Rightarrow> (Inr (), w)
                 | Some url \<Rightarrow>
                     (case fetchMetadata env url w of
                        (Inl error, w1) \<Rightarrow> (Inl error, w1)
                      | (Inr m, w1) \<Rightarrow>
                          save_or_queue env chatId (make_bookmark env chatId url m w1) w1))))"

section \<open>The sweep: \<open>handleScheduled\<close>\<close>








section \<open>Notions used in the statements\<close>

definition events_after :: "world \<Rightarrow> world \<Rightarrow> event list" where
  \<comment> \<open>the calls made between an earlier world and a later one\<close>
  "events_after w w' = drop (length (history w)) (history w')"

definition transient_failure :: "js_error + response \<Rightarrow> bool" where
  \<comment> \<open>the fetch is rejected (network error, or the abort of the timeout), the response is
      not 2xx, or reading its body fails\<close>
  "transient_failure r =
     (case r of
        Inl error \<Rightarrow> True
      | Inr resp \<Rightarrow> \<not> resp_ok resp \<or> isl (resp_text resp))"

text \<open>
  Predicates on the calls of one \<open>saveBookmark\<close>. \<open>fresh_writes\<close>: every conditional
  write comes directly after a read, and carries the records of that read with the new
  bookmark appended, under the revision of that read. \<open>backed_off\<close>: every write rejected
  with status 409 is followed by the log line and by a delay drawn from \<open>Math.random\<close>.
\<close>

fun is_write :: "event \<Rightarrow> bool" where
  "is_write (CreateOrUpdate c s m a) = True"
| "is_write e = False"

fun accepted_write :: "event \<Rightarrow> bool" where
  "accepted_write (CreateOrUpdate c s m a) = (a = None)"
| "accepted_write e = False"

fun conflict_write :: "event \<Rightarrow> bool" where
  "conflict_write (CreateOrUpdate c s m (Some error)) = (err_status error = Some 409)"
| "conflict_write e = False"

fun fresh_writes :: "bookmark \<Rightarrow> event list \<Rightarrow> bool" where
  "fresh_writes b [] = True"
| "fresh_writes b (GetContent rd # CreateOrUpdate c s m a # evs) =
     ((case catch_404 (decode_response rd) of
         Inl error \<Rightarrow> False
       | Inr file \<Rightarrow>
           c = encode_content (bookmarks file @ [bookmark_json b]) \<and>
           s = sha_or_undefined (sha file)) \<and>
      fresh_writes b evs)"
| "fresh_writes b (CreateOrUpdate c s m a # evs) = False"
| "fresh_writes b (e # evs) = fresh_writes b evs"

fun backed_off :: "env \<Rightarrow> event list \<Rightarrow> event list \<Rightarrow> bool" where
  "backed_off env h [] = True"
| "backed_off env h (e # evs) =
     ((conflict_write e \<longrightarrow>
         (case evs of
            Console (ConflictDetected n) # Backoff d # rest \<Rightarrow>
              d = math_random env (h @ [e, Console (ConflictDetected n)]) * 500 + 200
          | _ \<Rightarrow> False)) \<and>
      backed_off env (h @ [e]) evs)"

text \<open>
  The strings that \<open>URL_REGEX\<close> matches as a whole: \<open>http\<close> or \<open>https\<close> in any letter
  case, then \<open>://\<close>, then one or more characters of the class.
\<close>

definition regex_matches :: "string \<Rightarrow> bool" where
  "regex_matches u =
     (\<exists>scheme body. u = scheme @ ''://'' @ body \<and>
        (map to_lower scheme = ''http'' \<or> map to_lower scheme = ''https'') \<and>
        body \<noteq> [] \<and> (\<forall>c\<in>set body. url_char c))"

text \<open>
  The pattern as the specification words it, \<open>https?://[^whitespace]+\<close>: the scheme in
  lower case and any characters but whitespace after it; the leftmost match, as long as
  possible.
\<close>

definition claimed_match_here :: "string \<Rightarrow> string option" where
  "claimed_match_here s =
     (if take 8 s = ''https://'' \<and> takeWhile (\<lambda>c. \<not> js_whitespace c) (drop 8 s) \<noteq> []
      then Some (take 8 s @ takeWhile (\<lambda>c. \<not> js_whitespace c) (drop 8 s))
      else if take 7 s = ''http://'' \<and> takeWhile (\<lambda>c. \<not> js_whitespace c) (drop 7 s) \<noteq> []
      then Some (take 7 s @ takeWhile (\<lambda>c. \<not> js_whitespace c) (drop 7 s))
      else None)"

fun claimed_first_match :: "string \<Rightarrow> string option" where
  "claimed_first_match [] = None"
| "claimed_first_match (c # cs) =
     (case claimed_match_here (c # cs) of
        Some m \<Rightarrow> Some m
      | None \<Rightarrow> claimed_first_match cs)"

fun is_reply :: "event \<Rightarrow> bool" where
  "is_reply (SendMessage c r f) = True"
| "is_reply e = False"


text \<open>
  The keys read from the retry queue, in the order of the reads, and the number of
  attempts stored under a key.
\<close>

fun read_keys :: "event list \<Rightarrow> string list" where
  "read_keys [] = []"
| "read_keys (KvGet k r # evs) = k # read_keys evs"
| "read_keys (e # evs) = read_keys evs"


text \<open>
  The JSON values that a JavaScript object graph can hold: the keys of an object are
  distinct. The other notions name the characters a JSON text can start and end with,
  what can follow a number, and the text of one member of an object.
\<close>

fun wf_json :: "json \<Rightarrow> bool" where
  "wf_json (JArr vs) = (\<forall>v\<in>set vs. wf_json v)"
| "wf_json (JObj kvs) = (distinct (map fst kvs) \<and> (\<forall>kv\<in>set kvs. wf_json (snd kv)))"
| "wf_json v = True"

definition value_start :: "char \<Rightarrow> bool" where
  "value_start c =
     (c \<in> set [CHR ''{'', CHR ''['', CHR 0x22, CHR ''-'', CHR ''n'', CHR ''t'', CHR ''f''] \<or> is_digit c)"

definition value_stop :: "char \<Rightarrow> bool" where
  "value_stop c = (c \<in> set [CHR ''}'', CHR '']'', CHR 0x22, CHR ''l'', CHR ''e''] \<or> is_digit c)"

definition number_end :: "string \<Rightarrow> bool" where
  "number_end rest = (rest = [] \<or> hd rest \<in> set [CHR '','', CHR '']'', CHR ''}''])"

definition member_text :: "string \<times> json \<Rightarrow> string" where
  "member_text p = quote (fst p) @ '':'' @ JSON_stringify (snd p)"

section \<open>Concrete environments\<close>

definition not_found :: js_error where
  "not_found = JsError ''HttpError'' (Some 404) ''Not Found''"

definition conflict :: js_error where
  "conflict = JsError ''HttpError'' (Some 409) ''Conflict''"


definition aborted :: js_error where
  "aborted = JsError ''AbortError'' None ''The operation was aborted''"

definition simple_protocol :: "string \<Rightarrow> string option" where
  "simple_protocol u =
     (if take 7 u = ''http://'' then Some ''http:''
      else if take 8 u = ''https://'' then Some ''https:''
      else None)"

definition calm_env :: env where
  \<comment> \<open>the log file does not exist yet, every write is accepted, every fetch times out and
      nothing else fails\<close>
  "calm_env =
     \<lparr>gh_getContent = (\<lambda>h. Inl not_found),
      gh_createOrUpdate = (\<lambda>h c s m. None),
      math_random = (\<lambda>h. 1 / 2),
      url_protocol = simple_protocol,
      net_fetch = (\<lambda>h u. Inl aborted),
      telegram_fault = (\<lambda>h c r. None),
      kv_fault = (\<lambda>h k. None),
      randomUUID = (\<lambda>h. ''id-1''),
      now = (\<lambda>h. ''2026-01-18T00:00:00.000Z'')\<rparr>"

definition empty_world :: world where
  "empty_world = \<lparr>history = [], kv = []\<rparr>"


definition storm_env :: env where
  "storm_env = calm_env\<lparr>gh_getContent := (\<lambda>h. Inr (''{\"id\":\"a\"}'' @ [NL], ''sha-1'')),
                        gh_createOrUpdate := (\<lambda>h c s m. Some conflict)\<rparr>"

definition sample_bookmark :: bookmark where
  "sample_bookmark =
     \<lparr>bm_id = ''id-1'', bm_url = ''https://example.com/'', bm_title = Some ''Example'',
      bm_description = None, bm_image = None, bm_tags = [], bm_source = ''telegram'',
      bm_timestamp = ''2026-01-18T00:00:00.000Z'', bm_chat_id = 123\<rparr>"


definition url_message :: message where
  "url_message =
     \<lparr>msg_chat_id = 123, msg_text = Some ''Save this https://example.com/page now'',
      msg_caption = None\<rparr>"

definition plain_message :: message where
  "plain_message =
     \<lparr>msg_chat_id = 123, msg_text = Some ''Just some random text without links'',
      msg_caption = None\<rparr>"









definition sample_records :: "json list" where
  "sample_records =
     [bookmark_json sample_bookmark,
      JObj [(''id'', JStr ''two''), (''title'', JStr [CHR ''a'', CHR 0x0A, CHR 0x22, CHR ''b'']),
            (''n'', JNum (- 70)), (''tags'', JArr [JStr ''x'', JNull, JBool True, JObj []])]]"

section \<open>Properties of the JSON codec and of the line format\<close>

lemma hex_value_hex_digit:
  "n < 16 \<Longrightarrow> hex_value (hex_digit n) = Some n"
proof -
  have "\<forall>n\<in>{..<16}. hex_value (hex_digit n) = Some n"
    by (simp add: lessThan_nat_numeral lessThan_Suc hex_value_def hex_digit_def Let_def)
  then show "n < 16 \<Longrightarrow> hex_value (hex_digit n) = Some n"
    by simp
qed

lemma prepend_Some [simp]: "prepend c (Some (s, rest)) = Some (c # s, rest)"
  by (simp add: prepend_def)

lemma parse_escape_char:
  assumes "parse_string_body r = Some (s, rest)"
  shows "parse_string_body (escape_char c @ r) = Some (c # s, rest)"
proof -
  consider (q) "c = CHR 0x22" | (b) "c = CHR 0x5C" | (bs) "c = CHR 0x08" | (ff) "c = CHR 0x0C"
    | (nl) "c = CHR 0x0A" | (cr) "c = CHR 0x0D" | (tab) "c = CHR 0x09"
    | (ctl) "c \<notin> set [CHR 0x22, CHR 0x5C, CHR 0x08, CHR 0x0C, CHR 0x0A, CHR 0x0D, CHR 0x09]" "(of_char c :: nat) < 32"
    | (plain) "c \<notin> set [CHR 0x22, CHR 0x5C, CHR 0x08, CHR 0x0C, CHR 0x0A, CHR 0x0D, CHR 0x09]" "\<not> (of_char c :: nat) < 32"
    by auto
  then show ?thesis
  proof cases
    case ctl
    let ?n = "of_char c :: nat"
    have e: "escape_char c = [CHR 0x5C, CHR ''u'', CHR ''0'', CHR ''0'', hex_digit (?n div 16), hex_digit ?n]"
      using ctl by (simp add: escape_char_def)
    have h1: "hex_value (hex_digit (?n div 16)) = Some (?n div 16)"
      using ctl(2) by (intro hex_value_hex_digit) simp
    have "hex_digit ?n = hex_digit (?n mod 16)"
      by (simp add: hex_digit_def)
    then have h2: "hex_value (hex_digit ?n) = Some (?n mod 16)"
      using hex_value_hex_digit [of "?n mod 16"] by simp
    have h0: "hex_value (CHR ''0'') = Some 0"
      by (simp add: hex_value_def)
    have c: "char_of (16 * (?n div 16) + ?n mod 16) = c"
      by simp
    show ?thesis
      unfolding e using assms h0 h1 h2 c
      by (simp add: unescape_def)
  qed (use assms in \<open>simp_all add: escape_char_def unescape_def\<close>)
qed

lemma parse_string_body_quote:
  "parse_string_body (concat (map escape_char s) @ CHR 0x22 # rest) = Some (s, rest)"
proof (induction s)
  case Nil
  then show ?case by simp
next
  case (Cons c s)
  show ?case
    using parse_escape_char [OF Cons.IH, of c] by simp
qed


lemma is_digit_char_of: "(n::nat) < 10 \<Longrightarrow> is_digit (char_of (48 + n))"
  by (simp add: is_digit_def)

lemma digits_all_digit: "\<forall>c\<in>set (digits n). is_digit c"
proof (induction n rule: digits.induct)
  case (1 n)
  show ?case
  proof (cases "n < 10")
    case True
    then show ?thesis
      by (subst digits.simps) (simp add: is_digit_char_of)
  next
    case False
    then show ?thesis
      using 1 by (subst digits.simps) (simp add: is_digit_char_of)
  qed
qed

lemma digits_nonempty: "digits n \<noteq> []"
  by (subst digits.simps) simp

lemma digits_value_snoc: "digits_value (ds @ [d]) = 10 * digits_value ds + ((of_char d :: nat) - 48)"
  by (simp add: digits_value_def)

lemma digits_value_digits: "digits_value (digits n) = n"
proof (induction n rule: digits.induct)
  case (1 n)
  show ?case
  proof (cases "n < 10")
    case True
    then show ?thesis
      by (subst digits.simps) (simp add: digits_value_def)
  next
    case False
    have "digits_value (digits n) = 10 * digits_value (digits (n div 10)) + (n mod 10)"
      using False by (subst digits.simps) (simp add: digits_value_snoc)
    then show ?thesis
      using 1 False by simp
  qed
qed

lemma digits_hd_nonzero: "0 < n \<Longrightarrow> hd (digits n) \<noteq> CHR ''0''"
proof (induction n rule: digits.induct)
  case (1 n)
  show ?case
  proof (cases "n < 10")
    case True
    have v: "(of_char (char_of (48 + n) :: char) :: nat) = 48 + n"
      using True by simp
    have "char_of (48 + n) \<noteq> CHR ''0''"
    proof
      assume "char_of (48 + n) = CHR ''0''"
      then have "(of_char (char_of (48 + n) :: char) :: nat) = of_char (CHR ''0'')"
        by simp
      with v "1.prems" show False
        by simp
    qed
    then show ?thesis
      using True by (subst digits.simps) simp
  next
    case False
    then have "hd (digits (n div 10)) \<noteq> CHR ''0''"
      using 1 by simp
    then show ?thesis
      using False digits_nonempty [of "n div 10"] by (subst digits.simps) simp
  qed
qed

lemma digits_length_one: "1 < length (digits n) \<Longrightarrow> 0 < n"
  by (cases "n = 0") (simp_all add: digits.simps)

lemma number_end_not_digit:
  "number_end rest \<Longrightarrow> rest \<noteq> [] \<Longrightarrow>
     \<not> is_digit (hd rest) \<and> hd rest \<noteq> CHR ''.'' \<and> hd rest \<noteq> CHR ''e'' \<and> hd rest \<noteq> CHR ''E''"
  by (auto simp: number_end_def is_digit_def)

lemma parse_unsigned_digits:
  assumes "number_end rest"
  shows "parse_unsigned (digits n @ rest) = Some (n, rest)"
proof -
  have nd: "rest = [] \<or> \<not> is_digit (hd rest)"
    using number_end_not_digit [OF assms] by auto
  have tw: "takeWhile is_digit (digits n @ rest) = digits n"
    using digits_all_digit [of n] nd
    by (cases rest) (simp_all add: takeWhile_append2)
  have dw: "dropWhile is_digit (digits n @ rest) = rest"
    using digits_all_digit [of n] nd
    by (cases rest) (simp_all add: dropWhile_append2)
  have lead: "\<not> (1 < length (digits n) \<and> hd (digits n) = CHR ''0'')"
    using digits_length_one [of n] digits_hd_nonzero [of n] by auto
  have frac: "\<not> (rest \<noteq> [] \<and> (hd rest = CHR ''.'' \<or> hd rest = CHR ''e'' \<or> hd rest = CHR ''E''))"
    using number_end_not_digit [OF assms] by auto
  show ?thesis
    using lead frac digits_nonempty [of n]
    by (simp add: parse_unsigned_def tw dw Let_def digits_value_digits)
qed

lemma hd_digits_not_minus: "hd (digits n) \<noteq> CHR ''-''"
proof -
  have "is_digit (hd (digits n))"
    using digits_all_digit [of n] digits_nonempty [of n] by (cases "digits n") auto
  then show ?thesis
    by (auto simp: is_digit_def)
qed

lemma parse_number_stringify:
  assumes "number_end rest"
  shows "parse_number (JSON_stringify (JNum n) @ rest) = Some (JNum n, rest)"
proof (cases "n < 0")
  case True
  then show ?thesis
    using parse_unsigned_digits [OF assms, of "nat (- n)"]
    by (simp add: parse_number_def)
next
  case False
  obtain d ds where d: "digits (nat n) = d # ds"
    using digits_nonempty [of "nat n"] by (cases "digits (nat n)") auto
  have "d \<noteq> CHR ''-''"
    using hd_digits_not_minus [of "nat n"] d by simp
  then show ?thesis
    using False parse_unsigned_digits [OF assms, of "nat n"] d
    by (simp add: parse_number_def)
qed

lemma value_start_facts:
  "value_start c \<Longrightarrow>
     \<not> json_ws c \<and> \<not> js_whitespace c \<and> c \<noteq> CHR '']'' \<and> c \<noteq> CHR ''}'' \<and> c \<noteq> CHR '','' \<and> c \<noteq> NL"
  by (auto simp: value_start_def json_ws_def js_whitespace_def is_digit_def NL_def Let_def)

lemma stringify_start: "\<exists>c cs. JSON_stringify v = c # cs \<and> value_start c"
proof (cases v)
  case (JNum n)
  obtain d ds where d: "digits (nat n) = d # ds"
    using digits_nonempty [of "nat n"] by (cases "digits (nat n)") auto
  then have "is_digit d"
    using digits_all_digit [of "nat n"] by simp
  with d JNum show ?thesis
    by (simp add: value_start_def)
qed (simp_all add: value_start_def quote_def)

lemma skip_ws_start [simp]: "\<not> json_ws c \<Longrightarrow> skip_ws (c # cs) = c # cs"
  by (simp add: skip_ws_def)

lemma json_ws_punct [simp]:
  "\<not> json_ws (CHR '','')" "\<not> json_ws (CHR '']'')" "\<not> json_ws (CHR ''}'')" "\<not> json_ws (CHR '':'')"
  "\<not> json_ws (CHR 0x22)" "\<not> json_ws (CHR ''['')" "\<not> json_ws (CHR ''{'')"
  by (simp_all add: json_ws_def)

lemma foldl_update_distinct:
  "distinct (map fst (acc @ ms)) \<Longrightarrow>
   foldl (\<lambda>acc kv. AList.update (fst kv) (snd kv) acc) acc ms = acc @ ms"
proof (induction ms arbitrary: acc)
  case Nil
  then show ?case by simp
next
  case (Cons kv ms)
  have "fst kv \<notin> fst ` set acc"
    using Cons.prems by auto
  then have u: "AList.update (fst kv) (snd kv) acc = acc @ [kv]"
    by (induction acc) auto
  have "distinct (map fst ((acc @ [kv]) @ ms))"
    using Cons.prems by simp
  from Cons.IH [OF this] show ?case
    by (simp add: u)
qed


lemma number_end_punct [simp]:
  "number_end (CHR '','' # r)" "number_end (CHR '']'' # r)" "number_end (CHR ''}'' # r)" "number_end []"
  by (simp_all add: number_end_def)

lemma parse_elements_join:
  assumes elems: "\<And>v n rest. v \<in> set vs \<Longrightarrow> number_end rest \<Longrightarrow> length (JSON_stringify v) \<le> n \<Longrightarrow>
                    parse_value (Suc n) (JSON_stringify v @ rest) = Some (v, rest)"
      and "vs \<noteq> []"
      and "length (join '','' (map JSON_stringify vs)) + 2 \<le> n"
  shows "parse_elements n (join '','' (map JSON_stringify vs) @ CHR '']'' # rest) = Some (vs, rest)"
  using assms
proof (induction vs arbitrary: n)
  case Nil
  then show ?case by simp
next
  case (Cons v vs)
  show ?case
  proof (cases vs)
    case Nil
    then obtain m where m: "n = Suc (Suc m)" "length (JSON_stringify v) \<le> m"
      using Cons.prems(3) by (cases n; cases "n - 1") auto
    have "parse_value (Suc m) (JSON_stringify v @ CHR '']'' # rest) = Some (v, CHR '']'' # rest)"
      using Cons.prems(1) [of v "CHR '']'' # rest" m] m by simp
    then show ?thesis
      unfolding Nil m(1) by (subst parse_elements.simps(2)) simp
  next
    case (Cons v' vs')
    let ?tail = "join '','' (map JSON_stringify (v' # vs'))"
    have j: "join '','' (map JSON_stringify (v # vs)) = JSON_stringify v @ '','' @ ?tail"
      using Cons by simp
    obtain m where m: "n = Suc (Suc m)" "length (JSON_stringify v) \<le> m" "length ?tail + 2 \<le> Suc m"
      using Cons.prems(3) unfolding j by (cases n; cases "n - 1") auto
    have pv: "parse_value (Suc m) (JSON_stringify v @ CHR '','' # ?tail @ CHR '']'' # rest)
               = Some (v, CHR '','' # ?tail @ CHR '']'' # rest)"
      using Cons.prems(1) [of v "CHR '','' # ?tail @ CHR '']'' # rest" m] m by simp
    have pe: "parse_elements (Suc m) (?tail @ CHR '']'' # rest) = Some (vs, rest)"
      using Cons.IH [of "Suc m"] Cons.prems(1) m(3) Cons by simp
    show ?thesis
      unfolding j m(1) using pv pe by (subst parse_elements.simps(2)) simp
  qed
qed

lemma parse_members_join:
  assumes elems: "\<And>kv n rest. kv \<in> set kvs \<Longrightarrow> number_end rest \<Longrightarrow> length (JSON_stringify (snd kv)) \<le> n \<Longrightarrow>
                    parse_value (Suc n) (JSON_stringify (snd kv) @ rest) = Some (snd kv, rest)"
      and "kvs \<noteq> []"
      and "length (join '','' (map member_text kvs)) + 2 \<le> n"
  shows "parse_members n (join '','' (map member_text kvs) @ CHR ''}'' # rest) = Some (kvs, rest)"
  using assms
proof (induction kvs arbitrary: n)
  case Nil
  then show ?case by simp
next
  case (Cons kv kvs)
  obtain k v where kv: "kv = (k, v)"
    by (cases kv)
  have mt: "member_text kv = CHR 0x22 # concat (map escape_char k) @ CHR 0x22 # CHR '':'' # JSON_stringify v"
    by (simp add: member_text_def quote_def kv)
  have len: "length (JSON_stringify v) + 3 \<le> length (member_text kv)"
    by (simp add: mt)
  show ?case
  proof (cases kvs)
    case Nil
    then obtain m where m: "n = Suc (Suc m)" "length (JSON_stringify v) \<le> m"
      using Cons.prems(3) len by (cases n; cases "n - 1") auto
    have "parse_value (Suc m) (JSON_stringify v @ CHR ''}'' # rest) = Some (v, CHR ''}'' # rest)"
      using Cons.prems(1) [of kv "CHR ''}'' # rest" m] m kv by simp
    then show ?thesis
      unfolding Nil m(1)
      by (subst parse_members.simps(2)) (simp add: member_text_def quote_def parse_string_body_quote kv)
  next
    case (Cons kv' kvs')
    let ?tail = "join '','' (map member_text (kv' # kvs'))"
    have j: "join '','' (map member_text (kv # kvs)) = member_text kv @ '','' @ ?tail"
      using Cons by simp
    obtain m where m: "n = Suc (Suc m)" "length (JSON_stringify v) \<le> m" "length ?tail + 2 \<le> Suc m"
      using Cons.prems(3) len unfolding j by (cases n; cases "n - 1") auto
    have pv: "parse_value (Suc m) (JSON_stringify v @ CHR '','' # ?tail @ CHR ''}'' # rest)
               = Some (v, CHR '','' # ?tail @ CHR ''}'' # rest)"
      using Cons.prems(1) [of kv "CHR '','' # ?tail @ CHR ''}'' # rest" m] m kv by simp
    have pe: "parse_members (Suc m) (?tail @ CHR ''}'' # rest) = Some (kvs, rest)"
      using Cons.IH [of "Suc m"] Cons.prems(1) m(3) Cons by simp
    show ?thesis
      unfolding j m(1) using pv pe
      by (subst parse_members.simps(2)) (simp add: member_text_def quote_def parse_string_body_quote kv)
  qed
qed


lemma stringify_obj: "JSON_stringify (JObj kvs) = CHR ''{'' # join '','' (map member_text kvs) @ ''}''"
proof -
  have "(\<lambda>kv. quote (fst kv) @ '':'' @ JSON_stringify (snd kv)) = member_text"
    by (simp add: member_text_def fun_eq_iff)
  then show ?thesis by simp
qed

lemma join_members_start:
  "kvs \<noteq> [] \<Longrightarrow> \<exists>cs. join '','' (map member_text kvs) = CHR 0x22 # cs"
proof (cases kvs)
  case Nil
  then show "kvs \<noteq> [] \<Longrightarrow> ?thesis" by simp
next
  case (Cons p ps)
  then show ?thesis
    by (cases ps) (auto simp: member_text_def quote_def)
qed

lemma join_elements_start:
  "vs \<noteq> [] \<Longrightarrow> \<exists>c cs. join '','' (map JSON_stringify vs) = c # cs \<and> value_start c"
proof (cases vs)
  case Nil
  then show "vs \<noteq> [] \<Longrightarrow> ?thesis" by simp
next
  case (Cons v vs')
  obtain c cs where c: "JSON_stringify v = c # cs" "value_start c"
    using stringify_start by blast
  show ?thesis
    using Cons c by (cases vs') auto
qed

lemma parse_value_stringify:
  "wf_json v \<Longrightarrow> number_end rest \<Longrightarrow> length (JSON_stringify v) \<le> n \<Longrightarrow>
   parse_value (Suc n) (JSON_stringify v @ rest) = Some (v, rest)"
proof (induction v arbitrary: n rest)
  case JNull
  then show ?case
    by (subst parse_value.simps(2)) (simp add: skip_ws_def json_ws_def parse_literal_def is_digit_def)
next
  case (JBool b)
  then show ?case
    by (subst parse_value.simps(2)) (simp add: skip_ws_def json_ws_def parse_literal_def is_digit_def)
next
  case (JNum k)
  obtain c cs where c: "JSON_stringify (JNum k) = c # cs" "value_start c"
    using stringify_start by blast
  have d: "c = CHR ''-'' \<or> is_digit c"
  proof (cases "k < 0")
    case True
    then show ?thesis using c by simp
  next
    case False
    then have "digits (nat k) = c # cs" using c by simp
    then have "is_digit c" using digits_all_digit [of "nat k"] by simp
    then show ?thesis by simp
  qed
  then have nb: "c \<noteq> CHR ''{''" "c \<noteq> CHR ''[''" "c \<noteq> CHR 0x22" "\<not> json_ws c"
    by (auto simp: is_digit_def json_ws_def)
  have "parse_value (Suc n) ((c # cs) @ rest) = parse_number ((c # cs) @ rest)"
    using d nb by (subst parse_value.simps(2)) auto
  then show ?case
    using parse_number_stringify [OF JNum.prems(2), of k] c(1) by simp
next
  case (JStr s)
  then show ?case
    by (subst parse_value.simps(2)) (simp add: quote_def parse_string_body_quote)
next
  case (JArr vs)
  show ?case
  proof (cases vs)
    case Nil
    then show ?thesis
      by (subst parse_value.simps(2)) simp
  next
    case (Cons v' vs')
    then have ne: "vs \<noteq> []" by simp
    obtain c cs where c: "join '','' (map JSON_stringify vs) = c # cs" "value_start c"
      using join_elements_start [OF ne] by blast
    have len: "length (join '','' (map JSON_stringify vs)) + 2 \<le> n"
      using JArr.prems(3) by simp
    have el: "parse_elements n (join '','' (map JSON_stringify vs) @ CHR '']'' # rest) = Some (vs, rest)"
    proof (rule parse_elements_join [OF _ ne len])
      fix v m r
      assume "v \<in> set vs" "number_end r" "length (JSON_stringify v) \<le> m"
      then show "parse_value (Suc m) (JSON_stringify v @ r) = Some (v, r)"
        using JArr.IH [of v r m] JArr.prems(1) by simp
    qed
    show ?thesis
      using el c value_start_facts [OF c(2)]
      by (subst parse_value.simps(2)) simp
  qed
next
  case (JObj kvs)
  show ?case
  proof (cases kvs)
    case Nil
    then show ?thesis
      by (subst parse_value.simps(2)) simp
  next
    case (Cons kv' kvs')
    then have ne: "kvs \<noteq> []" by simp
    obtain cs where c: "join '','' (map member_text kvs) = CHR 0x22 # cs"
      using join_members_start [OF ne] by blast
    have len: "length (join '','' (map member_text kvs)) + 2 \<le> n"
      using JObj.prems(3) unfolding stringify_obj by simp
    have el: "parse_members n (join '','' (map member_text kvs) @ CHR ''}'' # rest) = Some (kvs, rest)"
    proof (rule parse_members_join [OF _ ne len])
      fix p m r
      assume a: "p \<in> set kvs" "number_end r" "length (JSON_stringify (snd p)) \<le> m"
      have "snd p \<in> Basic_BNFs.snds p"
        by (cases p) simp
      then show "parse_value (Suc m) (JSON_stringify (snd p) @ r) = Some (snd p, r)"
        using JObj.IH [OF a(1), of "snd p" r m] JObj.prems(1) a by simp
    qed
    have fold: "foldl (\<lambda>acc kv. AList.update (fst kv) (snd kv) acc) [] kvs = kvs"
      using foldl_update_distinct [of "[]" kvs] JObj.prems(1) by simp
    show ?thesis
      unfolding stringify_obj using el c fold
      by (subst parse_value.simps(2)) simp
  qed
qed

lemma JSON_parse_stringify:
  "wf_json v \<Longrightarrow> JSON_parse (JSON_stringify v) = Some v"
  using parse_value_stringify [of v "[]" "length (JSON_stringify v)"]
  by (simp add: JSON_parse_def skip_ws_def)

lemma hex_digit_not_NL [simp]: "hex_digit n \<noteq> CHR 0x0A"
proof -
  have "\<forall>k\<in>{..<16}. ''0123456789abcdef'' ! k \<noteq> CHR 0x0A"
    by (simp add: lessThan_nat_numeral lessThan_Suc)
  then show ?thesis
    by (simp add: hex_digit_def)
qed

lemma escape_char_no_NL: "NL \<notin> set (escape_char c)"
proof -
  have "CHR 0x0A \<noteq> hex_digit n" for n
    using hex_digit_not_NL [of n] by (rule not_sym)
  then show ?thesis
    by (simp add: escape_char_def NL_def)
qed

lemma quote_no_NL: "NL \<notin> set (quote s)"
  using escape_char_no_NL by (auto simp: quote_def NL_def)

lemma digits_no_NL: "NL \<notin> set (digits n)"
  using digits_all_digit [of n] by (auto simp: is_digit_def NL_def)

lemma set_join: "set (join sep xs) \<subseteq> set sep \<union> \<Union> (set ` set xs)"
  by (induction sep xs rule: join.induct) auto

lemma stringify_no_NL: "NL \<notin> set (JSON_stringify v)"
proof (induction v)
  case (JNum n)
  then show ?case
    using digits_no_NL by (auto simp: NL_def)
next
  case (JStr s)
  then show ?case by (simp add: quote_no_NL)
next
  case (JArr vs)
  have "NL \<notin> set (join '','' (map JSON_stringify vs))"
    using set_join [of "'',''" "map JSON_stringify vs"] JArr by (auto simp: NL_def)
  then show ?case by (simp add: NL_def)
next
  case (JObj kvs)
  have "NL \<notin> set (member_text p)" if "p \<in> set kvs" for p
  proof -
    have "snd p \<in> Basic_BNFs.snds p"
      by (cases p) simp
    then have "NL \<notin> set (JSON_stringify (snd p))"
      using JObj that by blast
    then show ?thesis
      using quote_no_NL by (simp add: member_text_def NL_def)
  qed
  then have "NL \<notin> set (join '','' (map member_text kvs))"
    using set_join [of "'',''" "map member_text kvs"] by (auto simp: NL_def)
  then show ?case
    unfolding stringify_obj by (simp add: NL_def)
qed (simp_all add: NL_def)

lemma value_stop_facts: "value_stop c \<Longrightarrow> \<not> js_whitespace c"
  by (auto simp: value_stop_def js_whitespace_def is_digit_def Let_def)

lemma stringify_stop: "JSON_stringify v \<noteq> [] \<and> value_stop (last (JSON_stringify v))"
proof (cases v)
  case (JNum n)
  have "is_digit (last (digits k))" for k
    using digits_all_digit [of k] digits_nonempty [of k] last_in_set by blast
  then show ?thesis
    using JNum digits_nonempty by (simp add: value_stop_def)
qed (simp_all add: value_stop_def quote_def)

lemma split_nl_line: "NL \<notin> set l \<Longrightarrow> split_nl l = [l]"
  by (induction l) auto

lemma split_nl_append: "NL \<notin> set l \<Longrightarrow> split_nl (l @ NL # rest) = l # split_nl rest"
  by (induction l) auto

lemma split_nl_join:
  "ls \<noteq> [] \<Longrightarrow> \<forall>l\<in>set ls. NL \<notin> set l \<Longrightarrow> split_nl (join [NL] ls) = ls"
proof (induction "[NL]" ls rule: join.induct)
  case 1
  then show ?case by simp
next
  case (2 x)
  then show ?case by (simp add: split_nl_line)
next
  case (3 x y ys)
  then show ?case by (simp add: split_nl_append)
qed

lemma trim_clean:
  assumes "s \<noteq> []" "\<not> js_whitespace (hd s)" "\<not> js_whitespace (last s)"
  shows "trim s = s" and "trim (s @ [NL]) = s"
proof -
  have d1: "dropWhile js_whitespace s = s"
    using assms by (cases s) simp_all
  have d2: "dropWhile js_whitespace (rev s) = rev s"
    using assms by (cases s rule: rev_cases) simp_all
  show "trim s = s"
    by (simp add: trim_def d1 d2)
  have d3: "dropWhile js_whitespace (s @ [NL]) = s @ [NL]"
    using assms by (cases s) simp_all
  have w: "js_whitespace NL"
    by (simp add: js_whitespace_def NL_def)
  show "trim (s @ [NL]) = s"
    by (simp add: trim_def d3 d2 w)
qed

lemma stringify_clean:
  "JSON_stringify v \<noteq> []" "\<not> js_whitespace (hd (JSON_stringify v))"
  "\<not> js_whitespace (last (JSON_stringify v))"
proof -
  obtain c cs where c: "JSON_stringify v = c # cs" "value_start c"
    using stringify_start by blast
  then show "JSON_stringify v \<noteq> []" "\<not> js_whitespace (hd (JSON_stringify v))"
    using value_start_facts [OF c(2)] by simp_all
  show "\<not> js_whitespace (last (JSON_stringify v))"
    using stringify_stop [of v] value_stop_facts by blast
qed

lemma join_lines_clean:
  assumes "ls \<noteq> []" "\<forall>l\<in>set ls. l \<noteq> []"
  shows "join [NL] ls \<noteq> [] \<and> hd (join [NL] ls) = hd (hd ls) \<and> last (join [NL] ls) = last (last ls)"
  using assms
proof (induction "[NL]" ls rule: join.induct)
  case 1
  then show ?case by simp
next
  case (2 x)
  then show ?case by simp
next
  case (3 x y ys)
  then show ?case by simp
qed

lemma parse_all_stringify:
  "\<forall>v\<in>set vs. wf_json v \<Longrightarrow> parse_all (map JSON_stringify vs) = Some vs"
  by (induction vs) (simp_all add: JSON_parse_stringify)

lemma join_lines_concat:
  "ls \<noteq> [] \<Longrightarrow> join [NL] ls @ [NL] = concat (map (\<lambda>l. l @ [NL]) ls)"
  by (induction "[NL]" ls rule: join.induct) simp_all

lemma wf_bookmark_json: "wf_json (bookmark_json b)"
  by (simp add: bookmark_json_def opt_field_def split: option.splits)

lemma filter_clean_lines:
  "filter (\<lambda>line. truthy (trim line)) (map JSON_stringify vs) = map JSON_stringify vs"
proof -
  have "truthy (trim (JSON_stringify v))" for v
    using trim_clean(1) [OF stringify_clean, of v] stringify_clean(1) [of v]
    by (simp add: truthy_def)
  then show ?thesis
    by (induction vs) simp_all
qed

text \<open>
  C6. The content written for a list of records is the JSON text of each record in
  order, each followed by one newline; no JSON text contains a newline, so every record
  is one line and the content ends in exactly one newline; and decoding that content the
  way \<open>getBookmarkFile\<close> does (trim, split at newlines, drop blank lines, parse each line)
  gives back the list. This holds for every list of JSON values whose objects have
  distinct keys, in particular for every list of bookmarks.
\<close>

theorem content_round_trip:
  assumes "\<forall>v\<in>set vs. wf_json v"
  shows "decode_content (encode_content vs) = Some vs \<and>
         (vs \<noteq> [] \<longrightarrow> encode_content vs = concat (map (\<lambda>v. JSON_stringify v @ [NL]) vs)) \<and>
         (\<forall>v\<in>set vs. NL \<notin> set (JSON_stringify v)) \<and>
         (\<exists>body. encode_content vs = body @ [NL] \<and> (body = [] \<or> last body \<noteq> NL)) \<and>
         decode_content (encode_content (map bookmark_json bs)) = Some (map bookmark_json bs)"
proof -
  have rt: "decode_content (encode_content xs) = Some xs" if wf: "\<forall>v\<in>set xs. wf_json v" for xs
  proof (cases xs)
    case Nil
    have e: "encode_content [] = [NL]"
      by (simp add: encode_content_def)
    have t0: "trim [NL] = []"
      by (simp add: trim_def js_whitespace_def NL_def)
    have t1: "trim [] = []"
      by (simp add: trim_def)
    have "decode_content [NL] = Some []"
      by (simp add: decode_content_def t0 t1 truthy_def)
    then show ?thesis
      unfolding Nil e .
  next
    case (Cons x xs')
    let ?ls = "map JSON_stringify xs"
    have ne: "?ls \<noteq> []"
      using Cons by simp
    have all_ne: "\<forall>l\<in>set ?ls. l \<noteq> []"
      using stringify_clean(1) by auto
    note J = join_lines_clean [OF ne all_ne]
    have h: "\<not> js_whitespace (hd (join [NL] ?ls))"
      using J stringify_clean(2) [of x] Cons by simp
    have "last ?ls = JSON_stringify (last xs)"
      using Cons by (simp add: last_map)
    then have l: "\<not> js_whitespace (last (join [NL] ?ls))"
      using J stringify_clean(3) [of "last xs"] by simp
    have t: "trim (join [NL] ?ls @ [NL]) = join [NL] ?ls"
      using trim_clean(2) J h l by blast
    have sp: "split_nl (join [NL] ?ls) = ?ls"
      using split_nl_join [OF ne] stringify_no_NL by auto
    show ?thesis
      using wf by (simp add: decode_content_def encode_content_def t sp filter_clean_lines
                             parse_all_stringify)
  qed
  have lines: "encode_content vs = concat (map (\<lambda>v. JSON_stringify v @ [NL]) vs)" if "vs \<noteq> []"
    using join_lines_concat [of "map JSON_stringify vs"] that
    by (simp add: encode_content_def comp_def)
  have one: "\<exists>body. encode_content vs = body @ [NL] \<and> (body = [] \<or> last body \<noteq> NL)"
  proof (cases vs)
    case Nil
    then show ?thesis
      by (simp add: encode_content_def)
  next
    case (Cons x xs')
    let ?ls = "map JSON_stringify vs"
    have ne: "?ls \<noteq> []"
      using Cons by simp
    have all_ne: "\<forall>l\<in>set ?ls. l \<noteq> []"
      using stringify_clean(1) by auto
    note J = join_lines_clean [OF ne all_ne]
    have "last ?ls = JSON_stringify (last vs)"
      using Cons by (simp add: last_map)
    then have "\<not> js_whitespace (last (join [NL] ?ls))"
      using J stringify_clean(3) [of "last vs"] by simp
    moreover have "js_whitespace NL"
      by (simp add: js_whitespace_def NL_def)
    ultimately have "last (join [NL] ?ls) \<noteq> NL"
      by auto
    then show ?thesis
      by (intro exI [of _ "join [NL] ?ls"]) (simp add: encode_content_def)
  qed
  have bm: "decode_content (encode_content (map bookmark_json bs)) = Some (map bookmark_json bs)"
    by (rule rt) (simp add: wf_bookmark_json)
  show ?thesis
    using rt [OF assms] lines one bm stringify_no_NL by blast
qed

theorem content_round_trip_witness:
  "list_all wf_json sample_records \<and>
   decode_content (encode_content sample_records) = Some sample_records \<and>
   split_nl (encode_content sample_records) = map JSON_stringify sample_records @ [ [] ] \<and>
   JSON_stringify (bookmark_json sample_bookmark) =
     ''{\"id\":\"id-1\",\"url\":\"https://example.com/\",\"title\":\"Example\",\"tags\":[],\"source\":\"telegram\",\"timestamp\":\"2026-01-18T00:00:00.000Z\",\"chat_id\":123}''"
proof -
  have h: "\<forall>v\<in>set sample_records. wf_json v"
    by code_simp
  have e: "split_nl (encode_content sample_records) = map JSON_stringify sample_records @ [ [] ]"
    by code_simp
  have t: "JSON_stringify (bookmark_json sample_bookmark) =
     ''{\"id\":\"id-1\",\"url\":\"https://example.com/\",\"title\":\"Example\",\"tags\":[],\"source\":\"telegram\",\"timestamp\":\"2026-01-18T00:00:00.000Z\",\"chat_id\":123}''"
    by code_simp
  have d: "decode_content (encode_content sample_records) = Some sample_records"
    using content_round_trip [OF h] by (rule conjunct1)
  have l: "list_all wf_json sample_records"
    using h by (simp add: list_all_iff)
  show ?thesis
    by (intro conjI l d e t)
qed

section \<open>Properties of the store adapter\<close>

lemma history_emit [simp]: "history (emit e w) = history w @ [e]"
  by (simp add: emit_def)

lemma kv_emit [simp]: "kv (emit e w) = kv w"
  by (simp add: emit_def)


lemma saveBookmark_loop_stop:
  "\<not> k < maxRetries \<Longrightarrow> saveBookmark_loop env b k w = (Inl exhausted, w)"
  by (subst saveBookmark_loop.simps) simp

lemma saveBookmark_loop_step:
  "k < maxRetries \<Longrightarrow>
   saveBookmark_loop env b k w =
     (case saveBookmark_try env b w of
        (Inr u, w1) \<Rightarrow> (Inr u, w1)
      | (Inl error, w1) \<Rightarrow>
          if err_status error = Some 409 then
            saveBookmark_loop env b (k + 1)
              (backoff env (emit (Console (ConflictDetected (k + 1))) w1))
          else (Inl error, w1))"
  by (subst saveBookmark_loop.simps) simp

lemma saveBookmark_try_read_fails:
  "catch_404 (decode_response (gh_getContent env (history w))) = Inl e \<Longrightarrow>
   saveBookmark_try env b w = (Inl e, emit (GetContent (gh_getContent env (history w))) w)"
  by (simp add: saveBookmark_try_def getBookmarkFile_def Let_def)

lemma saveBookmark_try_write:
  "catch_404 (decode_response (gh_getContent env (history w))) = Inr file \<Longrightarrow>
   saveBookmark_try env b w =
     ((case gh_createOrUpdate env (history w @ [GetContent (gh_getContent env (history w))])
              (encode_content (bookmarks file @ [bookmark_json b]))
              (sha_or_undefined (sha file))
              (''Add: '' @ title_or (bm_title b) ''Untitled'') of
         None \<Rightarrow> Inr () | Some error \<Rightarrow> Inl error),
      emit (CreateOrUpdate (encode_content (bookmarks file @ [bookmark_json b]))
              (sha_or_undefined (sha file))
              (''Add: '' @ title_or (bm_title b) ''Untitled'')
              (gh_createOrUpdate env (history w @ [GetContent (gh_getContent env (history w))])
                 (encode_content (bookmarks file @ [bookmark_json b]))
                 (sha_or_undefined (sha file))
                 (''Add: '' @ title_or (bm_title b) ''Untitled'')))
        (emit (GetContent (gh_getContent env (history w))) w))"
  by (simp add: saveBookmark_try_def getBookmarkFile_def Let_def split: option.splits)

lemma conflict_le_writes:
  "length (filter conflict_write evs) \<le> length (filter is_write evs)"
proof (induction evs)
  case Nil
  then show ?case by simp
next
  case (Cons e evs)
  have "conflict_write e \<Longrightarrow> is_write e"
    by (cases e) auto
  with Cons show ?case by auto
qed

lemma saveBookmark_loop_events:
  "\<exists>evs. history (snd (saveBookmark_loop env b k w)) = history w @ evs \<and>
         kv (snd (saveBookmark_loop env b k w)) = kv w \<and>
         fresh_writes b evs \<and>
         backed_off env (history w) evs \<and>
         length (filter is_write evs) \<le> maxRetries - k \<and>
         length (filter accepted_write evs) = (if isl (fst (saveBookmark_loop env b k w)) then 0 else 1) \<and>
         (length (filter conflict_write evs) = maxRetries - k \<longrightarrow>
            fst (saveBookmark_loop env b k w) = Inl exhausted)"
proof (induction env b k w rule: saveBookmark_loop.induct)
  case (1 env b k w)
  let ?rd = "gh_getContent env (history w)"
  let ?w1 = "emit (GetContent ?rd) w"
  show ?case
  proof (cases "k < maxRetries")
    case False
    then show ?thesis
      by (simp add: saveBookmark_loop_stop)
  next
    case True
    note step = saveBookmark_loop_step [OF True, of env b w]
    show ?thesis
    proof (cases "catch_404 (decode_response ?rd)")
      case (Inl e)
      note tr = saveBookmark_try_read_fails [OF Inl, of b]
      show ?thesis
      proof (cases "err_status e = Some 409")
        case False
        have eq: "saveBookmark_loop env b k w = (Inl e, ?w1)"
          using step tr False by simp
        show ?thesis
          unfolding eq using True
          by (intro exI [of _ "[GetContent ?rd]"]) simp
      next
        case c: True
        let ?w2 = "backoff env (emit (Console (ConflictDetected (k + 1))) ?w1)"
        have eq: "saveBookmark_loop env b k w = saveBookmark_loop env b (k + 1) ?w2"
          using step tr c by simp
        from "1.IH" [OF True tr [symmetric] refl c]
        obtain evs where evs:
          "history (snd (saveBookmark_loop env b (k + 1) ?w2)) = history ?w2 @ evs"
          "kv (snd (saveBookmark_loop env b (k + 1) ?w2)) = kv ?w2"
          "fresh_writes b evs"
          "backed_off env (history ?w2) evs"
          "length (filter is_write evs) \<le> maxRetries - (k + 1)"
          "length (filter accepted_write evs) = (if isl (fst (saveBookmark_loop env b (k + 1) ?w2)) then 0 else 1)"
          by blast
        have "length (filter conflict_write evs) < maxRetries - k"
          using conflict_le_writes [of evs] evs(5) True by simp
        then show ?thesis
          unfolding eq using evs True
          by (intro exI [of _ "GetContent ?rd # Console (ConflictDetected (k + 1))
                # Backoff (math_random env (history w @ [GetContent ?rd, Console (ConflictDetected (k + 1))]) * 500 + 200) # evs"])
             (simp add: backoff_def)
      qed
    next
      case (Inr fl)
      let ?c = "encode_content (bookmarks fl @ [bookmark_json b])"
      let ?s = "sha_or_undefined (sha fl)"
      let ?m = "''Add: '' @ title_or (bm_title b) ''Untitled''"
      let ?a = "gh_createOrUpdate env (history w @ [GetContent ?rd]) ?c ?s ?m"
      let ?wr = "CreateOrUpdate ?c ?s ?m ?a"
      let ?w2 = "emit ?wr ?w1"
      note tr = saveBookmark_try_write [OF Inr, of b]
      show ?thesis
      proof (cases ?a)
        case None
        have eq: "saveBookmark_loop env b k w = (Inr (), ?w2)"
          using step tr None by simp
        show ?thesis
          unfolding eq using True Inr None
          by (intro exI [of _ "[GetContent ?rd, ?wr]"])
             (simp add: maxRetries_def)
      next
        case (Some e)
        show ?thesis
        proof (cases "err_status e = Some 409")
          case False
          have eq: "saveBookmark_loop env b k w = (Inl e, ?w2)"
            using step tr Some False by simp
          show ?thesis
            unfolding eq using True Inr Some False
            by (intro exI [of _ "[GetContent ?rd, ?wr]"])
               (simp add: maxRetries_def)
        next
          case c: True
          let ?w3 = "backoff env (emit (Console (ConflictDetected (k + 1))) ?w2)"
          have tr': "(Inl e, ?w2) = saveBookmark_try env b w"
            using tr Some by simp
          have eq: "saveBookmark_loop env b k w = saveBookmark_loop env b (k + 1) ?w3"
            using step tr Some c by simp
          from "1.IH" [OF True tr' refl c]
          obtain evs where evs:
            "history (snd (saveBookmark_loop env b (k + 1) ?w3)) = history ?w3 @ evs"
            "kv (snd (saveBookmark_loop env b (k + 1) ?w3)) = kv ?w3"
            "fresh_writes b evs"
            "backed_off env (history ?w3) evs"
            "length (filter is_write evs) \<le> maxRetries - (k + 1)"
            "length (filter accepted_write evs) = (if isl (fst (saveBookmark_loop env b (k + 1) ?w3)) then 0 else 1)"
            "length (filter conflict_write evs) = maxRetries - (k + 1) \<longrightarrow>
               fst (saveBookmark_loop env b (k + 1) ?w3) = Inl exhausted"
            by blast
          show ?thesis
            unfolding eq using evs True Inr Some c
            by (intro exI [of _ "GetContent ?rd # ?wr # Console (ConflictDetected (k + 1))
                  # Backoff (math_random env (history w @ [GetContent ?rd, ?wr, Console (ConflictDetected (k + 1))]) * 500 + 200) # evs"])
               (auto simp add: backoff_def)
        qed
      qed
    qed
  qed
qed



lemma encode_content_single: "encode_content [v] = JSON_stringify v @ [NL]"
  by (simp add: encode_content_def)

text \<open>
  C9. When the read of the log file fails with status 404, \<open>getBookmarkFile\<close> returns no
  records and a null revision instead of throwing; \<open>saveBookmark\<close> then issues a write
  whose content is the one line of the new bookmark and whose expected revision is absent,
  and returns if that write is accepted. A read error with any other status is rethrown.
\<close>

theorem getBookmarkFile_missing_file:
  fixes env w e b
  defines "c \<equiv> JSON_stringify (bookmark_json b) @ [NL]"
      and "m \<equiv> ''Add: '' @ title_or (bm_title b) ''Untitled''"
  defines "a \<equiv> gh_createOrUpdate env (history w @ [GetContent (Inl e)]) c None m"
  assumes rd: "gh_getContent env (history w) = Inl e"
  shows "(err_status e = Some 404 \<longrightarrow>
            fst (getBookmarkFile env w) = Inr \<lparr>bookmarks = [], sha = None\<rparr> \<and>
            (\<exists>rest. events_after w (snd (saveBookmark env b w)) =
                 GetContent (Inl e) # CreateOrUpdate c None m a # rest \<and>
               (a = None \<longrightarrow> rest = [] \<and> fst (saveBookmark env b w) = Inr ()))) \<and>
         (err_status e \<noteq> Some 404 \<longrightarrow> fst (getBookmarkFile env w) = Inl e)"
proof (intro conjI impI)
  assume "err_status e \<noteq> Some 404"
  then show "fst (getBookmarkFile env w) = Inl e"
    using rd by (simp add: getBookmarkFile_def catch_404_def decode_response_def)
next
  assume nf: "err_status e = Some 404"
  then show "fst (getBookmarkFile env w) = Inr \<lparr>bookmarks = [], sha = None\<rparr>"
    using rd by (simp add: getBookmarkFile_def catch_404_def decode_response_def)
next
  assume nf: "err_status e = Some 404"
  let ?c = "JSON_stringify (bookmark_json b) @ [NL]"
  let ?m = "''Add: '' @ title_or (bm_title b) ''Untitled''"
  let ?a = "gh_createOrUpdate env (history w @ [GetContent (Inl e)]) ?c None ?m"
  let ?w2 = "emit (CreateOrUpdate ?c None ?m ?a) (emit (GetContent (Inl e)) w)"
  have fl: "catch_404 (decode_response (gh_getContent env (history w))) = Inr \<lparr>bookmarks = [], sha = None\<rparr>"
    using rd nf by (simp add: catch_404_def decode_response_def)
  have tr: "saveBookmark_try env b w = ((case ?a of None \<Rightarrow> Inr () | Some error \<Rightarrow> Inl error), ?w2)"
    using saveBookmark_try_write [OF fl, of b] rd
    by (simp add: encode_content_single sha_or_undefined_def)
  have step: "saveBookmark env b w =
     (case saveBookmark_try env b w of
        (Inr u, w1) \<Rightarrow> (Inr u, w1)
      | (Inl error, w1) \<Rightarrow>
          if err_status error = Some 409 then
            saveBookmark_loop env b (0 + 1)
              (backoff env (emit (Console (ConflictDetected (0 + 1))) w1))
          else (Inl error, w1))"
    unfolding saveBookmark_def by (rule saveBookmark_loop_step) (simp add: maxRetries_def)
  have ab: "c = ?c" "m = ?m" "a = ?a"
    by (simp_all add: c_def m_def a_def)
  show "\<exists>rest. events_after w (snd (saveBookmark env b w)) =
                 GetContent (Inl e) # CreateOrUpdate c None m a # rest \<and>
               (a = None \<longrightarrow> rest = [] \<and> fst (saveBookmark env b w) = Inr ())"
  proof (cases ?a)
    case None
    then have "saveBookmark env b w = (Inr (), ?w2)"
      using step tr by simp
    then show ?thesis
      using None by (simp add: events_after_def c_def m_def a_def)
  next
    case (Some e')
    show ?thesis
    proof (cases "err_status e' = Some 409")
      case False
      then have "saveBookmark env b w = (Inl e', ?w2)"
        using step tr Some by simp
      then show ?thesis
        using Some by (simp add: events_after_def c_def m_def a_def)
    next
      case True
      let ?w3 = "backoff env (emit (Console (ConflictDetected (0 + 1))) ?w2)"
      have eq: "saveBookmark env b w = saveBookmark_loop env b (0 + 1) ?w3"
        using step tr Some True by simp
      obtain evs where "history (snd (saveBookmark_loop env b (0 + 1) ?w3)) = history ?w3 @ evs"
        using saveBookmark_loop_events [of env b "0 + 1" ?w3] by blast
      then show ?thesis
        using Some by (simp add: eq events_after_def backoff_def c_def m_def a_def)
    qed
  qed
qed


theorem getBookmarkFile_missing_file_witness:
  "gh_getContent calm_env (history empty_world) = Inl not_found \<and>
   err_status not_found = Some 404 \<and>
   fst (getBookmarkFile calm_env empty_world) = Inr \<lparr>bookmarks = [], sha = None\<rparr> \<and>
   fst (saveBookmark calm_env sample_bookmark empty_world) = Inr () \<and>
   events_after empty_world (snd (saveBookmark calm_env sample_bookmark empty_world)) =
     [GetContent (Inl not_found),
      CreateOrUpdate (JSON_stringify (bookmark_json sample_bookmark) @ [NL]) None ''Add: Example'' None]"
proof -
  have rd: "gh_getContent calm_env (history empty_world) = Inl not_found"
    by (simp add: calm_env_def)
  have a: "gh_createOrUpdate calm_env h c s m = None" for h c s m
    by (simp add: calm_env_def)
  have t: "title_or (bm_title sample_bookmark) ''Untitled'' = ''Example''"
    by (simp add: sample_bookmark_def title_or_def truthy_def)
  show ?thesis
    using getBookmarkFile_missing_file [OF rd, of sample_bookmark] rd
    by (simp add: not_found_def a t)
qed


section \<open>Properties of the metadata resolver\<close>

text \<open>
  C3. For a URL that passes the validation, a fetch that fails in any way (rejected by a
  network error or by the timeout's abort, a response that is not 2xx, a body that cannot
  be read) makes \<open>fetchMetadata\<close> return a result, not throw; the result is marked partial
  and has no title, description or image. More generally a valid URL never makes
  \<open>fetchMetadata\<close> throw.
\<close>

theorem fetchMetadata_transient_failure_partial:
  assumes "valid_url env url"
  shows "\<exists>m. fst (fetchMetadata env url w) = Inr m \<and>
             (transient_failure (net_fetch env (history w) url) \<longrightarrow>
                md_partial m \<and> md_title m = None \<and> md_description m = None \<and> md_image m = None)"
  using assms
  by (auto simp: fetchMetadata_def transient_failure_def partial_result_def Let_def
           split: sum.splits)

theorem fetchMetadata_transient_failure_partial_witness:
  "valid_url calm_env ''https://slow.example.com/page'' \<and>
   transient_failure (net_fetch calm_env (history empty_world) ''https://slow.example.com/page'') \<and>
   fst (fetchMetadata calm_env ''https://slow.example.com/page'' empty_world)
     = Inr (partial_result ''https://slow.example.com/page'') \<and>
   md_partial (partial_result ''https://slow.example.com/page'')"
  using fetchMetadata_transient_failure_partial
          [of calm_env "''https://slow.example.com/page''" empty_world]
  by (simp add: valid_url_def calm_env_def simple_protocol_def transient_failure_def
                fetchMetadata_def partial_result_def empty_world_def Let_def)

section \<open>Properties of ingestion\<close>

lemma match_ci_sound:
  "match_ci p s = Some r \<Longrightarrow> \<exists>x. s = x @ r \<and> map to_lower x = map to_lower p"
proof (induction p s rule: match_ci.induct)
  case (3 p ps c cs)
  then obtain x where "cs = x @ r" "map to_lower x = map to_lower ps" "to_lower c = to_lower p"
    by (auto split: if_splits)
  then show ?case
    by (intro exI [of _ "c # x"]) simp
qed auto

lemma match_ci_complete:
  "map to_lower x = map to_lower p \<Longrightarrow> match_ci p (x @ r) = Some r"
  by (induction p "x @ r" arbitrary: x rule: match_ci.induct) auto

lemma to_lower_literals [simp]:
  "to_lower (CHR '':'') = CHR '':''" "to_lower (CHR ''/'') = CHR ''/''"
  "to_lower (CHR ''h'') = CHR ''h''" "to_lower (CHR ''t'') = CHR ''t''"
  "to_lower (CHR ''p'') = CHR ''p''" "to_lower (CHR ''s'') = CHR ''s''"
  by (simp_all add: to_lower_def)

lemma to_lower_fixed:
  assumes "(of_char d :: nat) < 65 \<or> 122 < (of_char d :: nat)"
  shows "to_lower c = d \<longleftrightarrow> c = d"
proof (cases "65 \<le> (of_char c :: nat) \<and> (of_char c :: nat) \<le> 90")
  case False
  then show ?thesis by (auto simp: to_lower_def Let_def)
next
  case True
  have "of_char (to_lower c) = (of_char c :: nat) + 32"
    using True by (simp add: to_lower_def Let_def)
  then have "to_lower c \<noteq> d" "c \<noteq> d"
    using True assms by auto
  then show ?thesis by simp
qed

lemma to_lower_colon [simp]: "to_lower c = CHR '':'' \<longleftrightarrow> c = CHR '':''"
  by (rule to_lower_fixed) simp

lemma to_lower_slash [simp]: "to_lower c = CHR ''/'' \<longleftrightarrow> c = CHR ''/''"
  by (rule to_lower_fixed) simp

lemma match_ci_sep:
  "match_ci ''://'' s = Some r \<longleftrightarrow> s = ''://'' @ r"
proof
  assume "match_ci ''://'' s = Some r"
  then obtain x where x: "s = x @ r" "map to_lower x = map to_lower ''://''"
    using match_ci_sound by blast
  then have "x = ''://''"
    by (auto simp: map_eq_Cons_conv)
  with x show "s = ''://'' @ r" by simp
next
  assume "s = ''://'' @ r"
  then show "match_ci ''://'' s = Some r" by simp
qed

lemma match_tail_Some:
  "match_tail s = Some n \<longleftrightarrow>
     (\<exists>r. s = ''://'' @ r \<and> takeWhile url_char r \<noteq> [] \<and> n = 3 + length (takeWhile url_char r))"
proof (cases "match_ci ''://'' s")
  case None
  then have "\<And>r. s \<noteq> ''://'' @ r"
    using match_ci_sep [of s] by auto
  with None show ?thesis
    by (auto simp: match_tail_def)
next
  case (Some r)
  then have "s = ''://'' @ r"
    using match_ci_sep by simp
  with Some show ?thesis
    by (auto simp: match_tail_def Let_def)
qed


lemma take_takeWhile:
  "take (length (takeWhile P xs)) xs = takeWhile P xs"
  by (rule takeWhile_eq_take [symmetric])

lemma take_3_plus:
  "take (3 + k) (a # b # c # r) = a # b # c # take k r"
  by (simp add: numeral_3_eq_3)

lemma take_4_plus:
  "take (4 + k) (a # b # c # d # r) = a # b # c # d # take k r"
  by (simp add: numeral_eq_Suc)

lemma match_here_complete:
  assumes "map to_lower x = ''http'' \<or> map to_lower x = ''https''"
      and "takeWhile url_char r \<noteq> []"
  shows "match_here (x @ ''://'' @ r) = Some (x @ ''://'' @ takeWhile url_char r)"
  using assms(1)
proof
  assume x: "map to_lower x = ''http''"
  then have "length (map to_lower x) = 4"
    by simp
  then have len: "length x = 4"
    by simp
  have m: "match_ci ''http'' (x @ ''://'' @ r) = Some (''://'' @ r)"
    by (rule match_ci_complete) (simp add: x)
  have t: "match_tail (''://'' @ r) = Some (3 + length (takeWhile url_char r))"
    using assms(2) by (simp add: match_tail_Some)
  show ?thesis
    using m t len by (simp add: match_here_def to_lower_def take_3_plus take_takeWhile)
next
  assume x: "map to_lower x = ''https''"
  then obtain y e where y: "x = y @ [e]" "map to_lower y = ''http''" "to_lower e = CHR ''s''"
    by (cases x rule: rev_cases) auto
  then have "length (map to_lower y) = 4"
    by simp
  then have len: "length y = 4"
    by simp
  have m: "match_ci ''http'' (y @ e # ''://'' @ r) = Some (e # ''://'' @ r)"
    by (rule match_ci_complete) (simp add: y)
  have t: "match_tail (''://'' @ r) = Some (3 + length (takeWhile url_char r))"
    using assms(2) by (simp add: match_tail_Some)
  show ?thesis
    using m t len y by (simp add: match_here_def take_3_plus take_4_plus take_takeWhile)
qed


lemma match_here_sound:
  assumes "match_here s = Some m"
  shows "\<exists>x r. s = x @ ''://'' @ r \<and>
           (map to_lower x = ''http'' \<or> map to_lower x = ''https'') \<and>
           takeWhile url_char r \<noteq> [] \<and> m = x @ ''://'' @ takeWhile url_char r"
proof -
  obtain r1 where r1: "match_ci ''http'' s = Some r1"
    using assms by (auto simp: match_here_def split: option.splits)
  then obtain y where y: "s = y @ r1" "map to_lower y = ''http''"
    using match_ci_sound [OF r1] by auto
  then have "length (map to_lower y) = 4"
    by simp
  then have len: "length y = 4"
    by simp
  show ?thesis
  proof (cases "\<exists>c cs n. r1 = c # cs \<and> to_lower c = CHR ''s'' \<and> match_tail cs = Some n")
    case True
    then obtain c cs n where c: "r1 = c # cs" "to_lower c = CHR ''s''" "match_tail cs = Some n"
      by blast
    then obtain r where r: "cs = ''://'' @ r" "takeWhile url_char r \<noteq> []"
        "n = 3 + length (takeWhile url_char r)"
      using match_tail_Some by auto
    have "match_here s = Some (take (5 + n) s)"
      using r1 c by (simp add: match_here_def)
    then have "m = (y @ [c]) @ ''://'' @ takeWhile url_char r"
      using assms y c r len by (simp add: take_3_plus take_takeWhile numeral_eq_Suc)
    moreover have "s = (y @ [c]) @ ''://'' @ r"
      using y c r by simp
    moreover have "map to_lower (y @ [c]) = ''https''"
      using y c by simp
    ultimately show ?thesis
      using r(2) by (intro exI [of _ "y @ [c]"] exI [of _ r]) simp
  next
    case False
    have ws: "(case r1 of
                 [] \<Rightarrow> None
               | c # cs \<Rightarrow>
                   if to_lower c = CHR ''s'' then
                     (case match_tail cs of None \<Rightarrow> None | Some n \<Rightarrow> Some (5 + n))
                   else None) = None"
    proof (cases r1)
      case Nil
      then show ?thesis by simp
    next
      case (Cons c cs)
      with False have "to_lower c = CHR ''s'' \<Longrightarrow> match_tail cs = None"
        by (cases "match_tail cs") simp_all
      with Cons show ?thesis by simp
    qed
    have "match_here s = (case match_tail r1 of None \<Rightarrow> None | Some n \<Rightarrow> Some (take (4 + n) s))"
      by (simp add: match_here_def r1 ws)
    then obtain n where n: "match_tail r1 = Some n" "m = take (4 + n) s"
      using assms by (auto split: option.splits)
    then obtain r where r: "r1 = ''://'' @ r" "takeWhile url_char r \<noteq> []"
        "n = 3 + length (takeWhile url_char r)"
      using match_tail_Some by auto
    have "m = y @ ''://'' @ takeWhile url_char r"
      using n y r len by (simp add: take_3_plus take_takeWhile)
    then show ?thesis
      using y r by (intro exI [of _ y] exI [of _ r]) simp
  qed
qed


lemma match_here_regex:
  assumes "match_here s = Some m"
  shows "regex_matches m \<and> (\<exists>post. s = m @ post)"
proof -
  from match_here_sound [OF assms]
  obtain x r where xr: "s = x @ ''://'' @ r"
      "map to_lower x = ''http'' \<or> map to_lower x = ''https''"
      "takeWhile url_char r \<noteq> []" "m = x @ ''://'' @ takeWhile url_char r"
    by (elim exE conjE)
  have all: "\<forall>c\<in>set (takeWhile url_char r). url_char c"
    by (auto dest: set_takeWhileD)
  have "regex_matches m"
    unfolding regex_matches_def
    by (rule exI [of _ x], rule exI [of _ "takeWhile url_char r"]) (use xr all in simp)
  moreover have "s = m @ dropWhile url_char r"
    using xr by simp
  ultimately show ?thesis
    by (intro conjI exI [of _ "dropWhile url_char r"])
qed

lemma regex_prefix_matched:
  assumes "regex_matches v"
  shows "\<exists>m. match_here (v @ post) = Some m \<and> length v \<le> length m"
proof -
  from assms [unfolded regex_matches_def]
  obtain x body where v: "v = x @ ''://'' @ body"
      "map to_lower x = ''http'' \<or> map to_lower x = ''https''"
      "body \<noteq> []" "\<forall>c\<in>set body. url_char c"
    by (elim exE conjE)
  have tw: "takeWhile url_char (body @ post) = body @ takeWhile url_char post"
    using v(4) by (simp add: takeWhile_append2)
  then have ne: "takeWhile url_char (body @ post) \<noteq> []"
    using v(3) by simp
  have "match_here (x @ ''://'' @ (body @ post)) = Some (x @ ''://'' @ takeWhile url_char (body @ post))"
    by (rule match_here_complete [OF v(2) ne])
  then show ?thesis
    using v(1) tw by simp
qed

lemma first_match_Some:
  "first_match t = Some u \<Longrightarrow>
     \<exists>pre post. t = pre @ u @ post \<and> match_here (u @ post) = Some u \<and>
                (\<forall>k<length pre. match_here (drop k t) = None)"
proof (induction t)
  case Nil
  then have "match_here [] = Some u" by simp
  then have "u = []"
    using match_here_regex by fastforce
  with \<open>match_here [] = Some u\<close> show ?case
    by (intro exI [of _ "[]"]) simp
next
  case (Cons c cs)
  show ?case
  proof (cases "match_here (c # cs)")
    case (Some m)
    then have "m = u" using Cons.prems by simp
    then obtain post where "c # cs = u @ post"
      using Some match_here_regex by blast
    then show ?thesis
      using Some \<open>m = u\<close> by (intro exI [of _ "[]"] exI [of _ post]) simp
  next
    case None
    then have "first_match cs = Some u" using Cons.prems by simp
    then obtain pre post where pp: "cs = pre @ u @ post" "match_here (u @ post) = Some u"
        "\<forall>k<length pre. match_here (drop k cs) = None"
      using Cons.IH by blast
    have "\<forall>k<length (c # pre). match_here (drop k (c # cs)) = None"
    proof (intro allI impI)
      fix k assume "k < length (c # pre)"
      then show "match_here (drop k (c # cs)) = None"
        using None pp(3) by (cases k) auto
    qed
    then show ?thesis
      using pp by (intro exI [of _ "c # pre"] exI [of _ post]) simp
  qed
qed

lemma first_match_None:
  "first_match t = None \<Longrightarrow> match_here (drop k t) = None"
proof (induction t arbitrary: k)
  case Nil
  then show ?case by simp
next
  case (Cons c cs)
  then have "match_here (c # cs) = None" "first_match cs = None"
    by (auto split: option.splits)
  then show ?case
    using Cons.IH by (cases k) auto
qed

lemma extractUrl_first_match: "extractUrl (Some t) = first_match t"
proof (cases t)
  case Nil
  have "match_here [] = None"
    by (simp add: match_here_def)
  with Nil show ?thesis
    by (simp add: extractUrl_def truthy_def)
next
  case (Cons c cs)
  then show ?thesis
    by (simp add: extractUrl_def truthy_def)
qed

lemma extractUrl_Some:
  assumes "extractUrl (Some t) = Some u"
  shows "\<exists>pre post. t = pre @ u @ post \<and> regex_matches u \<and>
           (\<forall>pre' v post'. t = pre' @ v @ post' \<and> regex_matches v \<longrightarrow>
              length pre \<le> length pre' \<and> (length pre' = length pre \<longrightarrow> length v \<le> length u))"
proof -
  obtain pre post where pp: "t = pre @ u @ post" "match_here (u @ post) = Some u"
      "\<forall>k<length pre. match_here (drop k t) = None"
    using assms first_match_Some unfolding extractUrl_first_match by blast
  have "regex_matches u"
    using pp(2) match_here_regex by blast
  moreover have "length pre \<le> length pre' \<and> (length pre' = length pre \<longrightarrow> length v \<le> length u)"
    if dec: "t = pre' @ v @ post'" and rm: "regex_matches v" for pre' v post'
  proof -
    obtain m where m: "match_here (v @ post') = Some m" "length v \<le> length m"
      using regex_prefix_matched [OF rm] by blast
    have d: "drop (length pre') t = v @ post'"
      using dec by simp
    have le: "length pre \<le> length pre'"
    proof (rule ccontr)
      assume "\<not> length pre \<le> length pre'"
      then have "match_here (drop (length pre') t) = None"
        using pp(3) by simp
      with d m show False by simp
    qed
    moreover have "length v \<le> length u" if same: "length pre' = length pre"
    proof -
      have "drop (length pre') t = u @ post"
        using pp(1) same by simp
      with d m pp(2) show ?thesis by simp
    qed
    ultimately show ?thesis by blast
  qed
  ultimately show ?thesis
    using pp(1) by blast
qed

lemma extractUrl_None:
  assumes "extractUrl (Some t) = None" and "t = pre @ v @ post"
  shows "\<not> regex_matches v"
proof
  assume "regex_matches v"
  then obtain m where "match_here (v @ post) = Some m"
    using regex_prefix_matched by blast
  moreover have "match_here (drop (length pre) t) = None"
    using assms(1) first_match_None unfolding extractUrl_first_match by blast
  ultimately show False
    using assms(2) by simp
qed


lemma handleUpdate_no_match:
  assumes "extractUrl (Some (message_text msg)) = None"
  shows "kv (snd (handleUpdate env (Some msg) w)) = kv w \<and>
         list_all is_reply (events_after w (snd (handleUpdate env (Some msg) w))) \<and>
         (take 1 (message_text msg) \<noteq> ''/'' \<longrightarrow> handleUpdate env (Some msg) w = (Inr (), w))"
  using assms
  by (simp add: handleUpdate_def Let_def sendMessage_def events_after_def split: option.splits)

text \<open>
  C8, as amended. \<open>extractUrl\<close> returns the leftmost substring that \<open>URL_REGEX\<close> matches,
  as long as possible: \<open>http\<close> or \<open>https\<close> in any letter case, \<open>://\<close>, and one or more
  characters that are neither whitespace nor one of \<open>< > " { } | \ ^ ` [ ]\<close>. It returns
  null exactly when no substring matches. With no match \<open>handleUpdate\<close> leaves the retry
  queue as it is and makes no call but the reply to a command; for a text that is not a
  command it returns at once, the world unchanged.
\<close>

theorem extractUrl_first_regex_match:
  "(extractUrl (Some t) = Some u \<longrightarrow>
      (\<exists>pre post. t = pre @ u @ post \<and> regex_matches u \<and>
         (\<forall>pre' v post'. t = pre' @ v @ post' \<and> regex_matches v \<longrightarrow>
            length pre \<le> length pre' \<and> (length pre' = length pre \<longrightarrow> length v \<le> length u)))) \<and>
   (extractUrl (Some t) = None \<longrightarrow> (\<forall>pre v post. t = pre @ v @ post \<longrightarrow> \<not> regex_matches v)) \<and>
   (extractUrl (Some (message_text msg)) = None \<longrightarrow>
      kv (snd (handleUpdate env (Some msg) w)) = kv w \<and>
      list_all is_reply (events_after w (snd (handleUpdate env (Some msg) w))) \<and>
      (take 1 (message_text msg) \<noteq> ''/'' \<longrightarrow> handleUpdate env (Some msg) w = (Inr (), w)))"
proof (intro conjI impI)
  assume "extractUrl (Some t) = Some u"
  then show "\<exists>pre post. t = pre @ u @ post \<and> regex_matches u \<and>
         (\<forall>pre' v post'. t = pre' @ v @ post' \<and> regex_matches v \<longrightarrow>
            length pre \<le> length pre' \<and> (length pre' = length pre \<longrightarrow> length v \<le> length u))"
    by (rule extractUrl_Some)
next
  assume "extractUrl (Some t) = None"
  then show "\<forall>pre v post. t = pre @ v @ post \<longrightarrow> \<not> regex_matches v"
    using extractUrl_None by blast
next
  assume n: "extractUrl (Some (message_text msg)) = None"
  show "kv (snd (handleUpdate env (Some msg) w)) = kv w"
    using handleUpdate_no_match [OF n] by simp
  show "list_all is_reply (events_after w (snd (handleUpdate env (Some msg) w)))"
    using handleUpdate_no_match [OF n] by simp
  show "handleUpdate env (Some msg) w = (Inr (), w)" if "take 1 (message_text msg) \<noteq> ''/''"
    using handleUpdate_no_match [OF n] that by simp
qed

theorem extractUrl_first_regex_match_witness:
  "extractUrl (Some ''Save this https://example.com/page now'') = Some ''https://example.com/page'' \<and>
   regex_matches ''https://example.com/page'' \<and>
   extractUrl (Some (message_text plain_message)) = None \<and>
   take 1 (message_text plain_message) \<noteq> ''/'' \<and>
   handleUpdate calm_env (Some plain_message) empty_world = (Inr (), empty_world)"
proof -
  have a: "extractUrl (Some ''Save this https://example.com/page now'') = Some ''https://example.com/page''"
    by code_simp
  have b: "extractUrl (Some (message_text plain_message)) = None"
    by code_simp
  have c: "take 1 (message_text plain_message) \<noteq> ''/''"
    by code_simp
  note T = extractUrl_first_regex_match
            [of "''Save this https://example.com/page now''" "''https://example.com/page''"
                plain_message calm_env empty_world]
  from T [THEN conjunct1, rule_format, OF a]
  obtain pre post where r: "regex_matches ''https://example.com/page''"
    by (elim exE conjE)
  from T [THEN conjunct2, THEN conjunct2, rule_format, OF b]
  have "take 1 (message_text plain_message) \<noteq> ''/'' \<longrightarrow>
          handleUpdate calm_env (Some plain_message) empty_world = (Inr (), empty_world)"
    by (elim conjE)
  with c have "handleUpdate calm_env (Some plain_message) empty_world = (Inr (), empty_world)"
    by (rule rev_mp)
  with a b c r show ?thesis
    by (intro conjI)
qed

text \<open>
  The claim C8 as stated fails: the pattern \<open>https?://[^whitespace]+\<close> matches
  \<open>https://<\<close>, which \<open>extractUrl\<close> rejects; it matches through \<open><b>\<close>, where
  \<open>extractUrl\<close> stops; and it does not match a scheme in capitals, which \<open>extractUrl\<close>
  accepts.
\<close>

theorem extractUrl_claimed_pattern_counterexample:
  "extractUrl (Some ''https://<'') = None \<and>
   claimed_first_match ''https://<'' = Some ''https://<'' \<and>
   extractUrl (Some ''see https://a.com/<b> now'') = Some ''https://a.com/'' \<and>
   claimed_first_match ''see https://a.com/<b> now'' = Some ''https://a.com/<b>'' \<and>
   extractUrl (Some ''HTTP://EXAMPLE.COM/x'') = Some ''HTTP://EXAMPLE.COM/x'' \<and>
   claimed_first_match ''HTTP://EXAMPLE.COM/x'' = None"
  by code_simp




lemma handleUpdate_url_path:
  assumes "take 1 (message_text msg) \<noteq> ''/''"
      and "extractUrl (Some (message_text msg)) = Some url"
      and "fetchMetadata env url w = (Inr m, w1)"
  shows "handleUpdate env (Some msg) w =
           save_or_queue env (msg_chat_id msg) (make_bookmark env (msg_chat_id msg) url m w1) w1"
  using assms by (simp add: handleUpdate_def Let_def)







text \<open>
  C4. When \<open>saveBookmark\<close> throws for a submission (the error of exhausted conflict
  retries, or any other), \<open>handleUpdate\<close> next calls \<open>put\<close> on the retry queue with the
  key \<open>retry:\<close> followed by the bookmark's id and an entry that holds the bookmark,
  \<open>attempts = 1\<close>, the error's message and the current time. When that \<open>put\<close> goes
  through, the queue holds the entry under the key and the only further call is the
  \<open>Queued for retry\<close> reply.
\<close>

theorem handleUpdate_persistence_error_queued:
  fixes env msg w url m w1 error w2
  defines "chat \<equiv> msg_chat_id msg"
  defines "b \<equiv> make_bookmark env chat url m w1"
  defines "key \<equiv> ''retry:'' @ bm_id b"
      and "entry \<equiv> \<lparr>rd_bookmark = b, attempts = 1, lastError = err_message error,
                       createdAt = now env (history w2), lastAttempt = None\<rparr>"
      and "w' \<equiv> snd (handleUpdate env (Some msg) w)"
  defines "queued \<equiv> SendMessage chat (QueuedReply (title_or (bm_title b) (bm_url b)))
                       (telegram_fault env (history w2 @ [KvPut key (RetryJson entry) None]) chat
                          (QueuedReply (title_or (bm_title b) (bm_url b))))"
  assumes "take 1 (message_text msg) \<noteq> ''/''"
      and "extractUrl (Some (message_text msg)) = Some url"
      and "fetchMetadata env url w = (Inr m, w1)"
      and "saveBookmark env b w1 = (Inl error, w2)"
  shows "(\<exists>rest. events_after w2 w' = KvPut key (RetryJson entry) (kv_fault env (history w2) key) # rest) \<and>
         (kv_fault env (history w2) key = None \<longrightarrow>
            kv w' = AList.update key (RetryJson entry) (kv w2) \<and>
            map_of (kv w') key = Some (RetryJson entry) \<and>
            events_after w2 w' = [KvPut key (RetryJson entry) None, queued])"
proof -
  have h: "handleUpdate env (Some msg) w = queue_for_retry env chat b error w2"
    using handleUpdate_url_path [OF assms(7,8,9)] assms(10)
    by (simp add: save_or_queue_def chat_def b_def)
  show ?thesis
    unfolding w'_def h
    by (simp add: queue_for_retry_def kv_put_def sendMessage_def Let_def events_after_def
                  key_def entry_def queued_def update_conv' split: option.splits)
qed


theorem handleUpdate_persistence_error_queued_witness:
  "take 1 (message_text url_message) \<noteq> ''/'' \<and>
   extractUrl (Some (message_text url_message)) = Some ''https://example.com/page'' \<and>
   fetchMetadata storm_env ''https://example.com/page'' empty_world =
     (Inr (partial_result ''https://example.com/page''),
      emit (Fetch ''https://example.com/page'' (Inl aborted)) empty_world) \<and>
   fst (saveBookmark storm_env
          (make_bookmark storm_env 123 ''https://example.com/page''
             (partial_result ''https://example.com/page'')
             (emit (Fetch ''https://example.com/page'' (Inl aborted)) empty_world))
          (emit (Fetch ''https://example.com/page'' (Inl aborted)) empty_world)) = Inl exhausted \<and>
   map_of (kv (snd (handleUpdate storm_env (Some url_message) empty_world))) ''retry:id-1'' =
     Some (RetryJson
       \<lparr>rd_bookmark =
          make_bookmark storm_env 123 ''https://example.com/page''
            (partial_result ''https://example.com/page'')
            (emit (Fetch ''https://example.com/page'' (Inl aborted)) empty_world),
        attempts = 1,
        lastError = ''Failed to save bookmark after multiple retries due to conflicts.'',
        createdAt = ''2026-01-18T00:00:00.000Z'',
        lastAttempt = None\<rparr>)"
proof -
  let ?url = "''https://example.com/page''"
  let ?w1 = "emit (Fetch ?url (Inl aborted)) empty_world"
  let ?b = "make_bookmark storm_env 123 ?url (partial_result ?url) ?w1"
  let ?w2 = "snd (saveBookmark storm_env ?b ?w1)"
  have h1: "take 1 (message_text url_message) \<noteq> ''/''"
    by code_simp
  have h2: "extractUrl (Some (message_text url_message)) = Some ?url"
    by code_simp
  have h3: "fetchMetadata storm_env ?url empty_world = (Inr (partial_result ?url), ?w1)"
    by (simp add: fetchMetadata_def valid_url_def storm_env_def calm_env_def simple_protocol_def Let_def)
  have f: "fst (saveBookmark storm_env ?b ?w1) = Inl exhausted"
    by code_simp
  have c: "msg_chat_id url_message = 123"
    by (simp add: url_message_def)
  have h4: "saveBookmark storm_env
              (make_bookmark storm_env (msg_chat_id url_message) ?url (partial_result ?url) ?w1) ?w1
            = (Inl exhausted, ?w2)"
    using f by (simp add: c prod_eq_iff)
  have nf: "kv_fault storm_env h k = None" for h k
    by (simp add: storm_env_def calm_env_def)
  have k: "bm_id ?b = ''id-1''" "now storm_env h = ''2026-01-18T00:00:00.000Z''" for h
    by (simp_all add: make_bookmark_def storm_env_def calm_env_def)
  have m: "map_of (kv (snd (handleUpdate storm_env (Some url_message) empty_world))) ''retry:id-1'' =
     Some (RetryJson
       \<lparr>rd_bookmark = ?b, attempts = 1,
        lastError = ''Failed to save bookmark after multiple retries due to conflicts.'',
        createdAt = ''2026-01-18T00:00:00.000Z'',
        lastAttempt = None\<rparr>)"
    using handleUpdate_persistence_error_queued [OF h1 h2 h3 h4]
    by (simp add: nf k c exhausted_def update_conv')
  show ?thesis
    by (intro conjI h1 h2 h3 f m)
qed









section \<open>Properties of the sweep\<close>

lemma read_keys_append [simp]: "read_keys (xs @ ys) = read_keys xs @ read_keys ys"
  by (induction xs rule: read_keys.induct) auto

























end
